theory Spec2Isabelle
  imports Main "HOL-Library.Sublist" "HOL-Library.AList"
begin

section \<open>The lint-report wrapper \<^verbatim>\<open>scripts/spectral-report.mjs\<close>\<close>

text \<open>
  The script discovers OpenAPI files, runs the Spectral linter on each of them, groups
  the findings by rule and prints one JSON document. The embedding follows the later
  revision of the script (the one with \<^verbatim>\<open>SEVERITY_LABELS\<close>). Modelling decisions:
  \<^item> JSON numbers are mathematical integers (\<open>int\<close>); JavaScript's doubles agree with
    them on every integer of magnitude below \<open>2^53\<close>, and the properties of sums and
    of texts of numbers are stated within that bound; fractions are outside the model;
  \<^item> strings are \<open>string\<close>;
  \<^item> a thrown exception is the \<open>Inl\<close> of a sum type;
  \<^item> the object \<^verbatim>\<open>byRule\<close> is an association list in insertion order, together with the
    properties every object literal inherits from \<^verbatim>\<open>Object.prototype\<close>.
\<close>

subsection \<open>Findings as the linter reports them\<close>

datatype js_value = JUndefined | JNull | JBool bool | JNumber int | JString string

record position =
  line :: js_value

record lint_range =
  start :: "position option"

text \<open>
  One element \<^verbatim>\<open>v\<close> of the parsed array. \<open>vrange\<close> is the field \<^verbatim>\<open>v.range\<close>
  (\<open>None\<close> when the linter omits it).
\<close>

record finding =
  code :: string
  message :: string
  severity :: int
  path :: "js_value list"
  vrange :: "lint_range option"

subsection \<open>The report\<close>

datatype 'a nullable = Null | Val 'a

record location =
  loc_path :: string
  loc_line :: "int nullable"
  loc_message :: string

text \<open>The value stored under a rule in \<^verbatim>\<open>byRule\<close>: \<^verbatim>\<open>{ count, severity, locations }\<close>.\<close>

record rule_data =
  data_count :: nat
  data_severity :: int
  data_locations :: "location list"

text \<open>
  An element of \<^verbatim>\<open>ruleBreakdown\<close>. The field \<open>truncated\<close> is \<open>None\<close> when the object
  has no such property.
\<close>

record RuleGroup =
  rule :: string
  severity_label :: string
  count :: nat
  locations :: "location list"
  truncated :: "string option"

record counts =
  errors :: nat
  warnings :: nat
  total_count :: nat

record FileReport =
  spec :: string
  pass :: bool
  counts :: counts
  ruleBreakdown :: "RuleGroup list"

record Report =
  allPass :: bool
  results :: "FileReport list"

datatype error = TypeError | SyntaxError | ExecError

subsection \<open>Numbers and strings of the runtime\<close>

definition digit_char :: "nat \<Rightarrow> char" where
  "digit_char d = char_of (48 + d)"

fun show_nat :: "nat \<Rightarrow> string" where
  "show_nat n = (if n < 10 then [digit_char n] else show_nat (n div 10) @ [digit_char (n mod 10)])"

declare show_nat.simps [simp del]

text \<open>
  The text of a number, for integers of magnitude below \<open>2^53\<close>: there the runtime
  prints the plain decimal numeral. Larger magnitudes are outside the model.
\<close>

definition show_int :: "int \<Rightarrow> string" where
  "show_int i = (if i < 0 then CHR ''-'' # show_nat (nat (- i)) else show_nat (nat i))"

text \<open>\<^verbatim>\<open>Array.prototype.join\<close> turns \<^verbatim>\<open>undefined\<close> and \<^verbatim>\<open>null\<close> into the empty string.\<close>

fun to_string :: "js_value \<Rightarrow> string" where
  "to_string JUndefined = []"
| "to_string JNull = []"
| "to_string (JBool b) = (if b then ''true'' else ''false'')"
| "to_string (JNumber n) = show_int n"
| "to_string (JString s) = s"

fun join :: "string \<Rightarrow> string list \<Rightarrow> string" where
  "join sep [] = []"
| "join sep [s] = s"
| "join sep (s # t # rest) = s @ sep @ join sep (t # rest)"

definition is_digit :: "char \<Rightarrow> bool" where
  "is_digit c = (48 \<le> (of_char c :: nat) \<and> (of_char c :: nat) \<le> 57)"

definition decimal_value :: "string \<Rightarrow> int" where
  "decimal_value s = foldl (\<lambda>n c. 10 * n + (of_char c - 48)) 0 s"

text \<open>
  A property key is an array index when it is the canonical decimal text of an integer
  from \<open>0\<close> to \<open>2^32 - 2\<close>.
\<close>

definition is_array_index :: "string \<Rightarrow> bool" where
  "is_array_index k =
     (k \<noteq> [] \<and> list_all is_digit k \<and> (length k = 1 \<or> hd k \<noteq> CHR ''0'')
      \<and> decimal_value k < 2 ^ 32 - 1)"

text \<open>
  \<^verbatim>\<open>Object.entries\<close>: own properties, the array-index keys first in ascending numeric
  order, then the other keys in the order of their creation.
\<close>

definition object_entries :: "(string \<times> 'a) list \<Rightarrow> (string \<times> 'a) list" where
  "object_entries obj =
     sort_key (\<lambda>e. decimal_value (fst e)) (filter (\<lambda>e. is_array_index (fst e)) obj)
     @ filter (\<lambda>e. \<not> is_array_index (fst e)) obj"

text \<open>
  \<^verbatim>\<open>Array.prototype.sort\<close> with a comparator: \<^verbatim>\<open>a\<close> stays before \<^verbatim>\<open>b\<close> unless
  the comparator is positive. The runtime's sort is stable, and for a consistent
  comparator the stable sorted arrangement is unique, so an insertion sort computes it.
\<close>

fun sort_insert :: "('a \<Rightarrow> 'a \<Rightarrow> int) \<Rightarrow> 'a \<Rightarrow> 'a list \<Rightarrow> 'a list" where
  "sort_insert cmp x [] = [x]"
| "sort_insert cmp x (y # ys) =
     (if cmp x y \<le> 0 then x # y # ys else y # sort_insert cmp x ys)"

definition js_sort :: "('a \<Rightarrow> 'a \<Rightarrow> int) \<Rightarrow> 'a list \<Rightarrow> 'a list" where
  "js_sort cmp xs = foldr (sort_insert cmp) xs []"

subsection \<open>\<^verbatim>\<open>summarize\<close>\<close>

definition SEVERITY_LABELS :: "int \<Rightarrow> string option" where
  "SEVERITY_LABELS s =
     (if s = 0 then Some ''error'' else if s = 1 then Some ''warning''
      else if s = 2 then Some ''info'' else if s = 3 then Some ''hint'' else None)"

text \<open>\<^verbatim>\<open>SEVERITY_LABELS[data.severity] ?? "unknown"\<close>\<close>

definition severity_text :: "int \<Rightarrow> string" where
  "severity_text s = (case SEVERITY_LABELS s of Some l \<Rightarrow> l | None \<Rightarrow> ''unknown'')"

text \<open>\<^verbatim>\<open>v.range?.start?.line\<close>\<close>

definition range_start_line :: "finding \<Rightarrow> js_value" where
  "range_start_line v =
     (case vrange v of None \<Rightarrow> JUndefined
      | Some r \<Rightarrow> (case start r of None \<Rightarrow> JUndefined | Some p \<Rightarrow> line p))"

text \<open>
  The object pushed onto \<^verbatim>\<open>locations\<close> for one finding. The sum \<^verbatim>\<open>line + 1\<close> is that
  of the runtime for lines of magnitude below \<open>2^53\<close>.
\<close>

definition to_location :: "finding \<Rightarrow> location" where
  "to_location v =
     \<lparr> loc_path = join ''.'' (map to_string (path v)),
       loc_line = (case range_start_line v of JNumber n \<Rightarrow> Val (n + 1) | _ \<Rightarrow> Null),
       loc_message = message v \<rparr>"

text \<open>
  The properties that \<^verbatim>\<open>byRule = {}\<close> inherits. Each of them is a function or an object,
  hence truthy, and none of them has a \<^verbatim>\<open>locations\<close> property.
\<close>

definition OBJECT_PROTOTYPE_KEYS :: "string list" where
  "OBJECT_PROTOTYPE_KEYS =
     [''constructor'', ''__defineGetter__'', ''__defineSetter__'', ''hasOwnProperty'',
      ''__lookupGetter__'', ''__lookupSetter__'', ''isPrototypeOf'',
      ''propertyIsEnumerable'', ''toString'', ''valueOf'', ''__proto__'',
      ''toLocaleString'']"

type_synonym byRule = "(string \<times> rule_data) list"

text \<open>
  One round of the grouping loop. When \<^verbatim>\<open>byRule[v.code]\<close> is an inherited property the
  guard \<^verbatim>\<open>!byRule[v.code]\<close> is false, no group is created, and
  \<^verbatim>\<open>byRule[v.code].locations.push\<close> throws a \<^verbatim>\<open>TypeError\<close>.
\<close>

definition record_violation :: "finding \<Rightarrow> byRule \<Rightarrow> error + byRule" where
  "record_violation v byRule =
     (let found =
        (case map_of byRule (code v) of
           Some data \<Rightarrow> Some data
         | None \<Rightarrow>
             if code v \<in> set OBJECT_PROTOTYPE_KEYS then None
             else Some \<lparr> data_count = 0, data_severity = severity v, data_locations = [] \<rparr>)
      in case found of
           None \<Rightarrow> Inl TypeError
         | Some data \<Rightarrow>
             Inr (AList.update (code v)
                    (data\<lparr> data_count := data_count data + 1,
                           data_locations := data_locations data @ [to_location v] \<rparr>)
                    byRule))"

fun group_by_rule :: "finding list \<Rightarrow> byRule \<Rightarrow> error + byRule" where
  "group_by_rule [] byRule = Inr byRule"
| "group_by_rule (v # vs) byRule =
     (case record_violation v byRule of
        Inl e \<Rightarrow> Inl e
      | Inr byRule' \<Rightarrow> group_by_rule vs byRule')"

text \<open>
  The comparator \<^verbatim>\<open>a.severity - b.severity || b.count - a.count\<close> on two entries
  \<^verbatim>\<open>[rule, data]\<close>.
\<close>

definition compare_entries :: "string \<times> rule_data \<Rightarrow> string \<times> rule_data \<Rightarrow> int" where
  "compare_entries a b =
     (let d = data_severity (snd a) - data_severity (snd b)
      in if d \<noteq> 0 then d else int (data_count (snd b)) - int (data_count (snd a)))"

definition to_rule_group :: "string \<times> rule_data \<Rightarrow> RuleGroup" where
  "to_rule_group e =
     (let data = snd e in
      \<lparr> rule = fst e,
        severity_label = severity_text (data_severity data),
        count = data_count data,
        locations = take 5 (data_locations data),
        truncated =
          (if length (data_locations data) > 5
           then Some (show_nat (length (data_locations data) - 5) @ '' more'')
           else None) \<rparr>)"

definition summarize :: "string \<Rightarrow> finding list \<Rightarrow> error + FileReport" where
  "summarize specPath violations =
     (let errs = filter (\<lambda>v. severity v = 0) violations;
          warns = filter (\<lambda>v. severity v = 1) violations
      in case group_by_rule violations [] of
           Inl e \<Rightarrow> Inl e
         | Inr byRule \<Rightarrow>
             Inr \<lparr> spec = specPath,
                   pass = (length errs = 0),
                   counts = \<lparr> errors = length errs, warnings = length warns,
                              total_count = length violations \<rparr>,
                   ruleBreakdown =
                     map to_rule_group (js_sort compare_entries (object_entries byRule)) \<rparr>)"

subsection \<open>Discovery of the specification files\<close>

text \<open>
  The four patterns use literal characters, one optional character, and anchors.
  Every pattern ends with \<^verbatim>\<open>$\<close>, which (without the \<^verbatim>\<open>m\<close> flag) is the end of the input.
\<close>

datatype rx_atom = Lit char | Opt char

datatype regex = Regex (anchored_start: bool) (atoms: "rx_atom list")

fun match_to_end :: "rx_atom list \<Rightarrow> string \<Rightarrow> bool" where
  "match_to_end [] s = (s = [])"
| "match_to_end (Lit c # r) s =
     (case s of [] \<Rightarrow> False | x # xs \<Rightarrow> x = c \<and> match_to_end r xs)"
| "match_to_end (Opt c # r) s =
     ((case s of [] \<Rightarrow> False | x # xs \<Rightarrow> x = c \<and> match_to_end r xs) \<or> match_to_end r s)"

text \<open>\<^verbatim>\<open>p.test(filename)\<close>: a pattern without \<^verbatim>\<open>^\<close> may start anywhere.\<close>

definition test :: "regex \<Rightarrow> string \<Rightarrow> bool" where
  "test p s =
     (if anchored_start p then match_to_end (atoms p) s
      else list_ex (match_to_end (atoms p)) (suffixes s))"

definition SPEC_PATTERNS :: "regex list" where
  "SPEC_PATTERNS =
     [Regex False (map Lit ''.openapi.y'' @ [Opt CHR ''a''] @ map Lit ''ml''),
      Regex False (map Lit ''.openapi.json''),
      Regex True (map Lit ''openapi.y'' @ [Opt CHR ''a''] @ map Lit ''ml''),
      Regex True (map Lit ''openapi.json'')]"

definition isSpecFile :: "string \<Rightarrow> bool" where
  "isSpecFile filename = list_ex (\<lambda>p. test p filename) SPEC_PATTERNS"

text \<open>
  What \<^verbatim>\<open>statSync\<close> and \<^verbatim>\<open>readdirSync\<close> find at a path: a regular file, a directory
  with its entries in the order the file system yields them, a directory that cannot be
  read, something that is neither (a socket, a device), or a name whose \<^verbatim>\<open>statSync\<close>
  throws (a dangling link).
\<close>

datatype fsnode =
  File
| Directory "(string \<times> fsnode) list"
| Unreadable
| Special
| Dangling

text \<open>
  \<^verbatim>\<open>path.join(dir, entry)\<close> for a normalised absolute \<^verbatim>\<open>dir\<close> and an entry name,
  with the POSIX separator.
\<close>

definition path_join :: "string \<Rightarrow> string \<Rightarrow> string" where
  "path_join dir entry = (if dir = ''/'' then dir @ entry else dir @ ''/'' @ entry)"

definition startsWith :: "string \<Rightarrow> string \<Rightarrow> bool" where
  "startsWith s p = (take (length p) s = p)"

text \<open>
  \<^verbatim>\<open>findSpecs(dir, depth)\<close> and \<^verbatim>\<open>processEntry(dir, entry, depth)\<close>; the node is what the
  file system holds at \<^verbatim>\<open>dir\<close>, respectively at the entry. A \<^verbatim>\<open>readdirSync\<close> that throws
  is caught and gives the empty list.
\<close>

function findSpecs :: "string \<Rightarrow> fsnode \<Rightarrow> int \<Rightarrow> string list"
  and processEntry :: "string \<Rightarrow> string \<times> fsnode \<Rightarrow> int \<Rightarrow> string list" where
  "findSpecs dir node depth =
     (if depth = 0 then []
      else case node of
             Directory entries \<Rightarrow> concat (map (\<lambda>entry. processEntry dir entry depth) entries)
           | _ \<Rightarrow> [])"
| "processEntry dir entry depth =
     (if startsWith (fst entry) ''.'' \<or> fst entry = ''node_modules'' then []
      else let full = path_join dir (fst entry) in
        case snd entry of
          Dangling \<Rightarrow> []
        | File \<Rightarrow> if isSpecFile (fst entry) then [full] else []
        | Directory es \<Rightarrow> findSpecs full (snd entry) (depth - 1)
        | Unreadable \<Rightarrow> findSpecs full (snd entry) (depth - 1)
        | Special \<Rightarrow> [])"
  by pat_completeness auto
termination
proof (relation "measure (\<lambda>x. case x of Inl (d, n, k) \<Rightarrow> 2 * size n | Inr (d, e, k) \<Rightarrow> 2 * size (snd e) + 1)")
  show "wf (measure (\<lambda>x. case x of Inl (d, n, k) \<Rightarrow> 2 * size n | Inr (d, e, k) \<Rightarrow> 2 * size (snd e) + 1))"
    by simp
next
  fix dir :: string and node :: fsnode and depth :: int and x1 and x :: "string \<times> fsnode"
  assume "node = Directory x1" and "x \<in> set x1"
  then have "size (snd x) < size node"
    by (cases x) (auto simp: less_Suc_eq_le dest!: size_list_estimation'[where f = "size_prod (\<lambda>_. 0) size" and y = "size (snd x)"])
  then show "(Inr (dir, x, depth), Inl (dir, node, depth)) \<in> measure (\<lambda>x. case x of Inl (d, n, k) \<Rightarrow> 2 * size n | Inr (d, e, k) \<Rightarrow> 2 * size (snd e) + 1)"
    by simp
qed auto

declare findSpecs.simps [simp del] processEntry.simps [simp del]

subsection \<open>Running the linter\<close>

text \<open>
  A text captured from the linter's standard output is represented by what
  \<^verbatim>\<open>JSON.parse\<close> makes of it: the empty text, the JSON text of an array of findings
  (the linter's contract: whenever it prints JSON, it prints such an array), or any
  other text (\<open>Garbage\<close>), which is not empty and not JSON. Only the empty text is
  falsy, and \<^verbatim>\<open>JSON.parse\<close> throws a \<^verbatim>\<open>SyntaxError\<close> on it. The literal \<^verbatim>\<open>"[]"\<close> of the
  script is \<open>Json []\<close>.
\<close>

datatype output_text = Empty | Json "finding list" | Garbage

fun JSON_parse :: "output_text \<Rightarrow> error + finding list" where
  "JSON_parse Empty = Inl SyntaxError"
| "JSON_parse (Json vs) = Inr vs"
| "JSON_parse Garbage = Inl SyntaxError"

fun truthy :: "output_text \<Rightarrow> bool" where
  "truthy Empty = False"
| "truthy (Json vs) = True"
| "truthy Garbage = True"

text \<open>
  What \<^verbatim>\<open>execFileSync\<close> does: it returns the captured standard output when the linter
  exits with status 0, and otherwise throws an error object. That object carries the
  status and the captured output when the linter ran and failed (\<open>Exited\<close>), and no
  output when the binary could not be started (\<open>SpawnFailed\<close>).
\<close>

datatype exec_error = SpawnFailed | Exited int output_text

datatype exec_result = Returned output_text | Threw exec_error

text \<open>\<^verbatim>\<open>err.stdout\<close> of the thrown object.\<close>

fun err_stdout :: "exec_error \<Rightarrow> output_text option" where
  "err_stdout SpawnFailed = None"
| "err_stdout (Exited status out) = Some out"

text \<open>
  \<^verbatim>\<open>lintSpec\<close>, given what \<^verbatim>\<open>execFileSync\<close> does for the path. A \<^verbatim>\<open>SyntaxError\<close> thrown
  by \<^verbatim>\<open>JSON.parse\<close> inside the \<^verbatim>\<open>try\<close> block is caught by the same \<^verbatim>\<open>catch\<close>; that
  error has no \<^verbatim>\<open>stdout\<close>, so it is thrown again.
\<close>

definition lintSpec :: "exec_result \<Rightarrow> error + finding list" where
  "lintSpec r =
     (case r of
        Returned raw \<Rightarrow>
          (case JSON_parse (if truthy raw then raw else Json []) of
             Inr vs \<Rightarrow> Inr vs
           | Inl e \<Rightarrow> Inl e)
      | Threw err \<Rightarrow>
          (case err_stdout err of
             Some out \<Rightarrow>
               if truthy out then
                 (case JSON_parse out of Inr vs \<Rightarrow> Inr vs | Inl e \<Rightarrow> Inl ExecError)
               else Inl ExecError
           | None \<Rightarrow> Inl ExecError))"

subsection \<open>The main program\<close>

text \<open>
  The surroundings of one run: the command-line arguments after the script name, the
  root directory with what the file system holds there, \<^verbatim>\<open>path.resolve\<close> from that
  root, and what running the linter on a path does.
\<close>

record world =
  argv :: "string list"
  REPO_ROOT :: string
  root_node :: fsnode
  resolve :: "string \<Rightarrow> string \<Rightarrow> string"
  spectral :: "string \<Rightarrow> exec_result"

datatype diagnostic = NoSpecsFound | Uncaught error

text \<open>
  What the process leaves behind: the documents printed on standard output, the
  diagnostics on the error channel, and the exit code.
\<close>

record outcome =
  stdout :: "Report list"
  stderr :: "diagnostic list"
  exit_code :: int

text \<open>
  \<^verbatim>\<open>specs.map((spec) => summarize(spec, lintSpec(spec)))\<close>; the first exception ends it.
\<close>

fun lint_all :: "(string \<Rightarrow> exec_result) \<Rightarrow> string list \<Rightarrow> error + FileReport list" where
  "lint_all run [] = Inr []"
| "lint_all run (s # rest) =
     (case lintSpec (run s) of
        Inl e \<Rightarrow> Inl e
      | Inr violations \<Rightarrow>
          (case summarize s violations of
             Inl e \<Rightarrow> Inl e
           | Inr r \<Rightarrow>
               (case lint_all run rest of
                  Inl e \<Rightarrow> Inl e
                | Inr rs \<Rightarrow> Inr (r # rs))))"

definition locate :: "world \<Rightarrow> string list" where
  "locate w =
     (if length (argv w) > 0 then map (resolve w (REPO_ROOT w)) (argv w)
      else findSpecs (REPO_ROOT w) (root_node w) 3)"

text \<open>
  The script's top level. An exception that nothing catches ends the process with
  exit code 1 and a stack trace on the error channel.
\<close>

definition main :: "world \<Rightarrow> outcome" where
  "main w =
     (let specs = locate w in
      if length specs = 0 then
        \<lparr> stdout = [], stderr = [NoSpecsFound], exit_code = 0 \<rparr>
      else
        case lint_all (spectral w) specs of
          Inl e \<Rightarrow> \<lparr> stdout = [], stderr = [Uncaught e], exit_code = 1 \<rparr>
        | Inr rs \<Rightarrow>
            (let all_pass = list_all pass rs in
             \<lparr> stdout = [\<lparr> allPass = all_pass, results = rs \<rparr>], stderr = [],
               exit_code = (if all_pass then 0 else 1) \<rparr>))"

subsection \<open>Vocabulary for the properties\<close>

text \<open>
  The findings of one rule in encounter order, the position at which a rule is first
  encountered, and the value that \<^verbatim>\<open>byRule\<close> ought to hold for a rule after the loop.
\<close>

definition rule_findings :: "string \<Rightarrow> finding list \<Rightarrow> finding list" where
  "rule_findings k vs = filter (\<lambda>v. code v = k) vs"

definition first_seen :: "string \<Rightarrow> finding list \<Rightarrow> nat" where
  "first_seen k vs = length (takeWhile (\<lambda>v. code v \<noteq> k) vs)"

definition group_of :: "string \<Rightarrow> finding list \<Rightarrow> rule_data" where
  "group_of k vs =
     \<lparr> data_count = length (rule_findings k vs),
       data_severity = (case rule_findings k vs of [] \<Rightarrow> 0 | v # _ \<Rightarrow> severity v),
       data_locations = map to_location (rule_findings k vs) \<rparr>"

text \<open>Some finding is named like a property of \<^verbatim>\<open>Object.prototype\<close>.\<close>

definition has_inherited_rule :: "finding list \<Rightarrow> bool" where
  "has_inherited_rule vs = list_ex (\<lambda>v. code v \<in> set OBJECT_PROTOTYPE_KEYS) vs"

text \<open>
  What the grouping loop establishes: one entry per rule of the findings, in the order
  of first encounter, each holding the group of its rule.
\<close>

definition grouped :: "finding list \<Rightarrow> byRule \<Rightarrow> bool" where
  "grouped vs al \<longleftrightarrow>
     distinct (map fst al) \<and> set (map fst al) = code ` set vs
     \<and> (\<forall>k d. map_of al k = Some d \<longrightarrow> d = group_of k vs)
     \<and> sorted_wrt (\<lambda>a b. first_seen a vs < first_seen b vs) (map fst al)"

text \<open>
  The order in which \<^verbatim>\<open>Object.entries\<close> enumerates two rules of the findings: array
  indices first, by their numeric value, then the other rules as first encountered.
\<close>

definition enumerated_before :: "finding list \<Rightarrow> string \<Rightarrow> string \<Rightarrow> bool" where
  "enumerated_before vs a b =
     (if is_array_index a then \<not> is_array_index b \<or> decimal_value a < decimal_value b
      else \<not> is_array_index b \<and> first_seen a vs < first_seen b vs)"

text \<open>
  The text \<open>t\<close> is the decimal numeral of \<open>n\<close>: digits only, no leading zero, of
  value \<open>n\<close>.
\<close>

definition decimal_text :: "int \<Rightarrow> string \<Rightarrow> bool" where
  "decimal_text n t \<longleftrightarrow>
     t \<noteq> [] \<and> list_all is_digit t \<and> (length t = 1 \<or> hd t \<noteq> CHR ''0'')
     \<and> decimal_value t = n"


text \<open>The standard output captured from a run of the linter, if any.\<close>

fun captured :: "exec_result \<Rightarrow> output_text option" where
  "captured (Returned raw) = Some raw"
| "captured (Threw err) = err_stdout err"

subsection \<open>Example inputs\<close>

text \<open>A finding with the given rule, severity and line.\<close>

definition sample :: "string \<Rightarrow> int \<Rightarrow> int \<Rightarrow> finding" where
  "sample c s l =
     \<lparr> code = c, message = ''m'', severity = s,
       path = [JString ''paths'', JString ''/quotes'', JNumber 0],
       vrange = Some \<lparr> start = Some \<lparr> line = JNumber l \<rparr> \<rparr> \<rparr>"

text \<open>Three errors of one rule and one warning of another.\<close>

definition four_findings :: "finding list" where
  "four_findings =
     [sample ''operation-operationId'' 0 10, sample ''operation-tags'' 1 11,
      sample ''operation-operationId'' 0 20, sample ''operation-operationId'' 0 30]"

definition four_report :: FileReport where
  "four_report =
     \<lparr> spec = ''/repo/openapi.yaml'', pass = False,
       counts = \<lparr> errors = 3, warnings = 1, total_count = 4 \<rparr>,
       ruleBreakdown =
         [\<lparr> rule = ''operation-operationId'', severity_label = ''error'', count = 3,
            locations =
              [\<lparr> loc_path = ''paths./quotes.0'', loc_line = Val 11, loc_message = ''m'' \<rparr>,
               \<lparr> loc_path = ''paths./quotes.0'', loc_line = Val 21, loc_message = ''m'' \<rparr>,
               \<lparr> loc_path = ''paths./quotes.0'', loc_line = Val 31, loc_message = ''m'' \<rparr>],
            truncated = None \<rparr>,
          \<lparr> rule = ''operation-tags'', severity_label = ''warning'', count = 1,
            locations =
              [\<lparr> loc_path = ''paths./quotes.0'', loc_line = Val 12, loc_message = ''m'' \<rparr>],
            truncated = None \<rparr>] \<rparr>"

text \<open>Seven errors of one rule.\<close>

definition seven_findings :: "finding list" where
  "seven_findings = map (sample ''no-eval-in-markdown'' 0) [1, 2, 3, 4, 5, 6, 7]"

definition seven_report :: FileReport where
  "seven_report =
     \<lparr> spec = ''/repo/openapi.yaml'', pass = False,
       counts = \<lparr> errors = 7, warnings = 0, total_count = 7 \<rparr>,
       ruleBreakdown =
         [\<lparr> rule = ''no-eval-in-markdown'', severity_label = ''error'', count = 7,
            locations =
              [\<lparr> loc_path = ''paths./quotes.0'', loc_line = Val 2, loc_message = ''m'' \<rparr>,
               \<lparr> loc_path = ''paths./quotes.0'', loc_line = Val 3, loc_message = ''m'' \<rparr>,
               \<lparr> loc_path = ''paths./quotes.0'', loc_line = Val 4, loc_message = ''m'' \<rparr>,
               \<lparr> loc_path = ''paths./quotes.0'', loc_line = Val 5, loc_message = ''m'' \<rparr>,
               \<lparr> loc_path = ''paths./quotes.0'', loc_line = Val 6, loc_message = ''m'' \<rparr>],
            truncated = Some ''2 more'' \<rparr>] \<rparr>"

text \<open>
  A rule whose first finding is informational and whose second is an error; a finding
  without a range; a finding whose line is not a number.
\<close>

definition mixed_findings :: "finding list" where
  "mixed_findings =
     [sample ''oas3-schema'' 2 7,
      \<lparr> code = ''oas3-schema'', message = ''no range'', severity = 0,
        path = [JString ''info'', JNull, JString ''title''], vrange = None \<rparr>,
      \<lparr> code = ''oas3-schema'', message = ''odd line'', severity = 0, path = [],
        vrange = Some \<lparr> start = Some \<lparr> line = JString ''7'' \<rparr> \<rparr> \<rparr>]"

definition mixed_report :: FileReport where
  "mixed_report =
     \<lparr> spec = ''/repo/openapi.yaml'', pass = False,
       counts = \<lparr> errors = 2, warnings = 0, total_count = 3 \<rparr>,
       ruleBreakdown =
         [\<lparr> rule = ''oas3-schema'', severity_label = ''info'', count = 3,
            locations =
              [\<lparr> loc_path = ''paths./quotes.0'', loc_line = Val 8, loc_message = ''m'' \<rparr>,
               \<lparr> loc_path = ''info..title'', loc_line = Null, loc_message = ''no range'' \<rparr>,
               \<lparr> loc_path = '''', loc_line = Null, loc_message = ''odd line'' \<rparr>],
            truncated = None \<rparr>] \<rparr>"

text \<open>
  Three findings of one rule: a numbered line and a path with numbers, a boolean and
  \<^verbatim>\<open>null\<close>; a range without a start; a line that is a text.
\<close>

definition located_findings :: "finding list" where
  "located_findings =
     [\<lparr> code = ''path-params'', message = ''first'', severity = 0,
        path = [JString ''paths'', JString ''/quotes'', JNumber 12, JBool True, JNull,
                JNumber (- 3)],
        vrange = Some \<lparr> start = Some \<lparr> line = JNumber 41 \<rparr> \<rparr> \<rparr>,
      \<lparr> code = ''path-params'', message = ''no start'', severity = 0, path = [],
        vrange = Some \<lparr> start = None \<rparr> \<rparr>,
      \<lparr> code = ''path-params'', message = ''text line'', severity = 0,
        path = [JString ''info''],
        vrange = Some \<lparr> start = Some \<lparr> line = JString ''41'' \<rparr> \<rparr> \<rparr>]"

definition located_report :: FileReport where
  "located_report =
     \<lparr> spec = ''/repo/openapi.yaml'', pass = False,
       counts = \<lparr> errors = 3, warnings = 0, total_count = 3 \<rparr>,
       ruleBreakdown =
         [\<lparr> rule = ''path-params'', severity_label = ''error'', count = 3,
            locations =
              [\<lparr> loc_path = ''paths./quotes.12.true..-3'', loc_line = Val 42,
                 loc_message = ''first'' \<rparr>,
               \<lparr> loc_path = '''', loc_line = Null, loc_message = ''no start'' \<rparr>,
               \<lparr> loc_path = ''info'', loc_line = Null, loc_message = ''text line'' \<rparr>],
            truncated = None \<rparr>] \<rparr>"

text \<open>An error and two warnings of different rules, one finding each.\<close>

definition tied_findings :: "finding list" where
  "tied_findings =
     [sample ''operation-tags'' 1 3, sample ''info-contact'' 1 9, sample ''oas3-schema'' 0 5]"

definition tied_report :: FileReport where
  "tied_report =
     \<lparr> spec = ''/repo/openapi.yaml'', pass = False,
       counts = \<lparr> errors = 1, warnings = 2, total_count = 3 \<rparr>,
       ruleBreakdown =
         [\<lparr> rule = ''oas3-schema'', severity_label = ''error'', count = 1,
            locations =
              [\<lparr> loc_path = ''paths./quotes.0'', loc_line = Val 6, loc_message = ''m'' \<rparr>],
            truncated = None \<rparr>,
          \<lparr> rule = ''operation-tags'', severity_label = ''warning'', count = 1,
            locations =
              [\<lparr> loc_path = ''paths./quotes.0'', loc_line = Val 4, loc_message = ''m'' \<rparr>],
            truncated = None \<rparr>,
          \<lparr> rule = ''info-contact'', severity_label = ''warning'', count = 1,
            locations =
              [\<lparr> loc_path = ''paths./quotes.0'', loc_line = Val 10, loc_message = ''m'' \<rparr>],
            truncated = None \<rparr>] \<rparr>"

text \<open>Two warnings whose rules are named by numbers.\<close>

definition numbered_findings :: "finding list" where
  "numbered_findings = [sample ''404'' 1 3, sample ''200'' 1 9]"

definition numbered_report :: FileReport where
  "numbered_report =
     \<lparr> spec = ''/repo/openapi.yaml'', pass = True,
       counts = \<lparr> errors = 0, warnings = 2, total_count = 2 \<rparr>,
       ruleBreakdown =
         [\<lparr> rule = ''200'', severity_label = ''warning'', count = 1,
            locations =
              [\<lparr> loc_path = ''paths./quotes.0'', loc_line = Val 10, loc_message = ''m'' \<rparr>],
            truncated = None \<rparr>,
          \<lparr> rule = ''404'', severity_label = ''warning'', count = 1,
            locations =
              [\<lparr> loc_path = ''paths./quotes.0'', loc_line = Val 4, loc_message = ''m'' \<rparr>],
            truncated = None \<rparr>] \<rparr>"

text \<open>A project with one specification at the root and two below it.\<close>

definition sample_tree :: fsnode where
  "sample_tree =
     Directory
       [(''openapi.yml'', File),
        (''README.md'', File),
        (''.github'', Directory [(''openapi.yaml'', File)]),
        (''node_modules'', Directory [(''openapi.json'', File)]),
        (''specs'', Directory [(''quotes.openapi.json'', File), (''OpenAPI.yaml'', File),
                              (''v2'', Directory [(''openapi.yaml'', File),
                                 (''deep'', Directory [(''openapi.json'', File)])])]),
        (''openapi.yaml'', Directory []),
        (''broken'', Dangling)]"

text \<open>\<^verbatim>\<open>path.resolve\<close> on the plain relative names of the examples.\<close>

definition resolve_plain :: "string \<Rightarrow> string \<Rightarrow> string" where
  "resolve_plain root a = (if prefix ''/'' a then a else path_join root a)"

text \<open>
  Two files given on the command line: the linter finds one warning in the first, and
  on the second it prints the four findings and exits with status 1.
\<close>

definition two_files_world :: world where
  "two_files_world =
     \<lparr> argv = [''a.yaml'', ''openapi.yaml''], REPO_ROOT = ''/repo'', root_node = sample_tree,
       resolve = resolve_plain,
       spectral = (\<lambda>p. if p = ''/repo/a.yaml'' then Returned (Json [sample ''operation-tags'' 1 3])
                       else Threw (Exited 1 (Json four_findings))) \<rparr>"

definition two_files_report :: Report where
  "two_files_report =
     \<lparr> allPass = False,
       results =
         [\<lparr> spec = ''/repo/a.yaml'', pass = True,
            counts = \<lparr> errors = 0, warnings = 1, total_count = 1 \<rparr>,
            ruleBreakdown =
              [\<lparr> rule = ''operation-tags'', severity_label = ''warning'', count = 1,
                 locations =
                   [\<lparr> loc_path = ''paths./quotes.0'', loc_line = Val 4, loc_message = ''m'' \<rparr>],
                 truncated = None \<rparr>] \<rparr>,
          four_report] \<rparr>"

text \<open>The linter binary is missing.\<close>

definition no_linter_world :: world where
  "no_linter_world =
     \<lparr> argv = [''openapi.yaml''], REPO_ROOT = ''/repo'', root_node = sample_tree,
       resolve = resolve_plain, spectral = (\<lambda>p. Threw SpawnFailed) \<rparr>"

text \<open>The linter exits with status 0 and prints nothing.\<close>

definition silent_linter_world :: world where
  "silent_linter_world =
     \<lparr> argv = [''openapi.yaml''], REPO_ROOT = ''/repo'', root_node = sample_tree,
       resolve = resolve_plain, spectral = (\<lambda>p. Returned Empty) \<rparr>"

text \<open>No arguments, and no specification anywhere in the project.\<close>

definition no_specs_world :: world where
  "no_specs_world =
     \<lparr> argv = [], REPO_ROOT = ''/repo'',
       root_node = Directory [(''README.md'', File), (''src'', Directory [(''index.ts'', File)])],
       resolve = resolve_plain, spectral = (\<lambda>p. Threw SpawnFailed) \<rparr>"

section \<open>Properties\<close>

subsection \<open>The grouping loop\<close>

lemma group_by_rule_snoc:
  "group_by_rule (vs @ [v]) al =
     (case group_by_rule vs al of Inl e \<Rightarrow> Inl e | Inr al' \<Rightarrow> record_violation v al')"
  by (induction vs arbitrary: al) (auto split: sum.splits)

lemma rule_findings_snoc:
  "rule_findings k (vs @ [v]) = rule_findings k vs @ (if code v = k then [v] else [])"
  by (simp add: rule_findings_def)

lemma rule_findings_empty_iff: "rule_findings k vs = [] \<longleftrightarrow> k \<notin> code ` set vs"
  by (auto simp: rule_findings_def filter_empty_conv)

lemma first_seen_snoc:
  "first_seen k (vs @ [v]) =
     (if k \<in> code ` set vs then first_seen k vs
      else if code v = k then length vs else Suc (length vs))"
  by (induction vs) (auto simp: first_seen_def)

lemma first_seen_less: "k \<in> code ` set vs \<Longrightarrow> first_seen k vs < length vs"
  by (induction vs) (auto simp: first_seen_def)

lemma group_of_snoc_other:
  "code v \<noteq> k \<Longrightarrow> group_of k (vs @ [v]) = group_of k vs"
  by (simp add: group_of_def rule_findings_snoc)

lemma group_of_snoc_new:
  "code v \<notin> code ` set vs \<Longrightarrow>
   group_of (code v) (vs @ [v]) =
     \<lparr> data_count = 1, data_severity = severity v, data_locations = [to_location v] \<rparr>"
  using rule_findings_empty_iff[of "code v" vs]
  by (simp add: group_of_def rule_findings_snoc)

lemma group_of_snoc_old:
  "code v \<in> code ` set vs \<Longrightarrow>
   group_of (code v) (vs @ [v]) =
     (group_of (code v) vs)\<lparr> data_count := data_count (group_of (code v) vs) + 1,
        data_locations := data_locations (group_of (code v) vs) @ [to_location v] \<rparr>"
  using rule_findings_empty_iff[of "code v" vs]
  by (auto simp: group_of_def rule_findings_snoc split: list.splits)

lemma grouped_Nil: "grouped [] []"
  by (simp add: grouped_def)

lemma grouped_lookup:
  assumes "grouped vs al"
  shows "map_of al k = (if k \<in> code ` set vs then Some (group_of k vs) else None)"
proof (cases "map_of al k")
  case None
  then have "k \<notin> set (map fst al)" by (simp add: map_of_eq_None_iff)
  with assms None show ?thesis by (simp add: grouped_def)
next
  case (Some d)
  then have "k \<in> set (map fst al)" by (metis map_of_eq_None_iff option.distinct(1) set_map)
  with assms Some show ?thesis by (auto simp: grouped_def)
qed

lemma record_violation_error:
  assumes "grouped vs al"
  shows "record_violation v al = Inl e \<longleftrightarrow>
           e = TypeError \<and> code v \<in> set OBJECT_PROTOTYPE_KEYS \<and> code v \<notin> code ` set vs"
  by (auto simp: record_violation_def grouped_lookup[OF assms] Let_def split: option.splits if_splits)

lemma record_violation_grouped:
  assumes g: "grouped vs al" and r: "record_violation v al = Inr al'"
  shows "grouped (vs @ [v]) al'"
proof (cases "code v \<in> code ` set vs")
  case True
  then have al': "al' = AList.update (code v) (group_of (code v) (vs @ [v])) al"
    using r by (simp add: record_violation_def grouped_lookup[OF g] group_of_snoc_old)
  from True g have mem: "code v \<in> fst ` set al" by (simp add: grouped_def)
  have keys: "map fst al' = map fst al"
    using mem by (simp add: al' update_keys)
  have data: "\<forall>k d. map_of al' k = Some d \<longrightarrow> d = group_of k (vs @ [v])"
    using g by (auto simp: al' update_conv' grouped_def group_of_snoc_other)
  have order: "sorted_wrt (\<lambda>a b. first_seen a (vs @ [v]) < first_seen b (vs @ [v])) (map fst al')"
  proof -
    have s: "sorted_wrt (\<lambda>a b. first_seen a vs < first_seen b vs) (map fst al)"
      using g by (simp add: grouped_def)
    have same: "\<And>a. a \<in> set (map fst al) \<Longrightarrow> first_seen a (vs @ [v]) = first_seen a vs"
      using g by (simp add: grouped_def first_seen_snoc)
    show ?thesis
      unfolding keys by (rule sorted_wrt_mono_rel[OF _ s]) (simp add: same)
  qed
  show ?thesis
    using g True data order by (auto simp: grouped_def keys)
next
  case False
  then have al': "al' = AList.update (code v) (group_of (code v) (vs @ [v])) al"
    using r by (simp add: record_violation_def grouped_lookup[OF g] group_of_snoc_new split: if_splits)
  from False g have mem: "code v \<notin> fst ` set al" by (simp add: grouped_def)
  have keys: "map fst al' = map fst al @ [code v]"
    using mem by (simp add: al' update_keys)
  have data: "\<forall>k d. map_of al' k = Some d \<longrightarrow> d = group_of k (vs @ [v])"
    using g by (auto simp: al' update_conv' grouped_def group_of_snoc_other)
  have old: "\<And>a. a \<in> set (map fst al) \<Longrightarrow>
      first_seen a (vs @ [v]) = first_seen a vs \<and> first_seen a vs < length vs"
    using g by (simp add: grouped_def first_seen_snoc first_seen_less)
  have new: "first_seen (code v) (vs @ [v]) = length vs"
    using False by (simp add: first_seen_snoc)
  have s: "sorted_wrt (\<lambda>a b. first_seen a vs < first_seen b vs) (map fst al)"
    using g by (simp add: grouped_def)
  have "sorted_wrt (\<lambda>a b. first_seen a (vs @ [v]) < first_seen b (vs @ [v])) (map fst al)"
    by (rule sorted_wrt_mono_rel[OF _ s]) (simp add: old)
  then have order: "sorted_wrt (\<lambda>a b. first_seen a (vs @ [v]) < first_seen b (vs @ [v])) (map fst al')"
    unfolding keys using old new by (simp add: sorted_wrt_append)
  show ?thesis
    using g False data order mem by (auto simp: grouped_def keys)
qed

lemma group_by_rule_result:
  "(has_inherited_rule vs \<longrightarrow> group_by_rule vs [] = Inl TypeError)
   \<and> (\<not> has_inherited_rule vs \<longrightarrow> (\<exists>al. group_by_rule vs [] = Inr al \<and> grouped vs al))"
proof (induction vs rule: rev_induct)
  case Nil
  show ?case by (simp add: has_inherited_rule_def grouped_Nil)
next
  case (snoc v vs)
  show ?case
  proof (cases "has_inherited_rule vs")
    case True
    with snoc show ?thesis
      by (simp add: group_by_rule_snoc has_inherited_rule_def)
  next
    case False
    with snoc obtain al where al: "group_by_rule vs [] = Inr al" and g: "grouped vs al"
      by auto
    from False have clean: "\<forall>u \<in> set vs. code u \<notin> set OBJECT_PROTOTYPE_KEYS"
      by (auto simp: has_inherited_rule_def list_ex_iff)
    show ?thesis
    proof (cases "record_violation v al")
      case (Inl e)
      with record_violation_error[OF g, of v e] al show ?thesis
        by (auto simp: group_by_rule_snoc has_inherited_rule_def)
    next
      case (Inr al')
      from record_violation_error[OF g, of v TypeError] Inr
      have "code v \<notin> set OBJECT_PROTOTYPE_KEYS \<or> code v \<in> code ` set vs" by auto
      with clean have "\<not> has_inherited_rule (vs @ [v])"
        by (auto simp: has_inherited_rule_def list_ex_iff)
      with record_violation_grouped[OF g Inr] Inr al show ?thesis
        by (simp add: group_by_rule_snoc)
    qed
  qed
qed

subsection \<open>Sorting and enumeration\<close>

lemma set_sort_insert: "set (sort_insert cmp x ys) = insert x (set ys)"
  by (induction ys) auto

lemma length_sort_insert: "length (sort_insert cmp x ys) = Suc (length ys)"
  by (induction ys) auto

lemma set_js_sort: "set (js_sort cmp xs) = set xs"
  by (induction xs) (auto simp: js_sort_def set_sort_insert)

lemma length_js_sort: "length (js_sort cmp xs) = length xs"
  by (induction xs) (auto simp: js_sort_def length_sort_insert)

lemma filter_sort_insert_skip:
  "\<not> P x \<Longrightarrow> filter P (sort_insert cmp x ys) = filter P ys"
  by (induction ys) auto

lemma filter_sort_insert_front:
  "P x \<Longrightarrow> (\<And>y. y \<in> set ys \<Longrightarrow> P y \<Longrightarrow> cmp x y \<le> 0) \<Longrightarrow>
   filter P (sort_insert cmp x ys) = x # filter P ys"
  by (induction ys) auto

lemma filter_js_sort:
  assumes "\<And>x y. x \<in> set xs \<Longrightarrow> y \<in> set xs \<Longrightarrow> P x \<Longrightarrow> P y \<Longrightarrow> cmp x y \<le> 0"
  shows "filter P (js_sort cmp xs) = filter P xs"
  using assms
proof (induction xs)
  case Nil
  show ?case by (simp add: js_sort_def)
next
  case (Cons x xs)
  have step: "js_sort cmp (x # xs) = sort_insert cmp x (js_sort cmp xs)"
    by (simp add: js_sort_def)
  have ih: "filter P (js_sort cmp xs) = filter P xs"
    using Cons by simp
  show ?case
  proof (cases "P x")
    case True
    have "filter P (sort_insert cmp x (js_sort cmp xs)) = x # filter P (js_sort cmp xs)"
      using True Cons.prems by (intro filter_sort_insert_front) (simp_all add: set_js_sort)
    with True ih show ?thesis by (simp add: step)
  next
    case False
    with ih show ?thesis by (simp add: step filter_sort_insert_skip)
  qed
qed

lemma sorted_sort_insert:
  assumes trans: "\<And>a b c. cmp a b \<le> 0 \<Longrightarrow> cmp b c \<le> 0 \<Longrightarrow> cmp a c \<le> 0"
    and total: "\<And>a b. cmp a b \<le> 0 \<or> cmp b a \<le> 0"
  shows "sorted_wrt (\<lambda>a b. cmp a b \<le> 0) ys \<Longrightarrow>
         sorted_wrt (\<lambda>a b. cmp a b \<le> 0) (sort_insert cmp x ys)"
proof (induction ys)
  case Nil
  show ?case by simp
next
  case (Cons y ys)
  show ?case
  proof (cases "cmp x y \<le> 0")
    case True
    with Cons.prems trans show ?thesis by auto
  next
    case False
    with total[of x y] have "cmp y x \<le> 0" by simp
    with False Cons show ?thesis by (auto simp: set_sort_insert)
  qed
qed

lemma sorted_js_sort:
  assumes trans: "\<And>a b c. cmp a b \<le> 0 \<Longrightarrow> cmp b c \<le> 0 \<Longrightarrow> cmp a c \<le> 0"
    and total: "\<And>a b. cmp a b \<le> 0 \<or> cmp b a \<le> 0"
  shows "sorted_wrt (\<lambda>a b. cmp a b \<le> 0) (js_sort cmp xs)"
proof (induction xs)
  case Nil
  show ?case by (simp add: js_sort_def)
next
  case (Cons x xs)
  have "js_sort cmp (x # xs) = sort_insert cmp x (js_sort cmp xs)"
    by (simp add: js_sort_def)
  with sorted_sort_insert[of cmp, OF trans total Cons] show ?case by simp
qed

lemma compare_entries_le:
  "compare_entries a b \<le> 0 \<longleftrightarrow>
     data_severity (snd a) < data_severity (snd b)
     \<or> (data_severity (snd a) = data_severity (snd b) \<and> data_count (snd b) \<le> data_count (snd a))"
  by (auto simp: compare_entries_def Let_def)

lemma sorted_entries:
  "sorted_wrt (\<lambda>a b. compare_entries a b \<le> 0) (js_sort compare_entries es)"
  by (rule sorted_js_sort) (auto simp: compare_entries_le)

lemma set_object_entries: "set (object_entries obj) = set obj"
  by (auto simp: object_entries_def)

lemma length_object_entries: "length (object_entries obj) = length obj"
proof -
  have "length (filter (\<lambda>e. is_array_index (fst e)) obj)
        + length (filter (\<lambda>e. \<not> is_array_index (fst e)) obj) = length obj"
    by (rule sum_length_filter_compl)
  then show ?thesis by (simp add: object_entries_def)
qed

lemma filter_object_entries:
  "filter (\<lambda>e. \<not> is_array_index (fst e)) (object_entries obj)
     = filter (\<lambda>e. \<not> is_array_index (fst e)) obj"
proof -
  have "filter (\<lambda>e. \<not> is_array_index (fst e))
          (sort_key (\<lambda>e. decimal_value (fst e)) (filter (\<lambda>e. is_array_index (fst e)) obj)) = []"
    by (simp add: filter_empty_conv)
  then show ?thesis by (simp add: object_entries_def)
qed

subsection \<open>The shape of a report\<close>

lemma distinct_js_sort: "distinct xs \<Longrightarrow> distinct (js_sort cmp xs)"
  by (metis card_distinct distinct_card length_js_sort set_js_sort)

lemma distinct_object_entries: "distinct obj \<Longrightarrow> distinct (object_entries obj)"
  by (metis card_distinct distinct_card length_object_entries set_object_entries)

lemma grouped_entry:
  assumes "grouped vs al" and "e \<in> set al"
  shows "fst e \<in> code ` set vs \<and> snd e = group_of (fst e) vs"
proof -
  from assms have "map_of al (fst e) = Some (snd e)"
    by (simp add: grouped_def)
  with grouped_lookup[OF assms(1), of "fst e"] show ?thesis
    by (auto split: if_splits)
qed

lemma summarize_Inr:
  assumes "summarize sp vs = Inr r"
  obtains al where "group_by_rule vs [] = Inr al" and "grouped vs al"
    and "ruleBreakdown r = map to_rule_group (js_sort compare_entries (object_entries al))"
    and "spec r = sp" and "pass r = (filter (\<lambda>v. severity v = 0) vs = [])"
    and "counts r = \<lparr> errors = length (filter (\<lambda>v. severity v = 0) vs),
                       warnings = length (filter (\<lambda>v. severity v = 1) vs),
                       total_count = length vs \<rparr>"
proof -
  from assms obtain al where al: "group_by_rule vs [] = Inr al"
    by (auto simp: summarize_def Let_def split: sum.splits)
  with group_by_rule_result[of vs] have "grouped vs al"
    by (cases "has_inherited_rule vs") auto
  with al assms that show ?thesis
    by (auto simp: summarize_def Let_def)
qed

lemma summarize_succeeds:
  "(\<exists>r. summarize sp vs = Inr r) \<longleftrightarrow> \<not> has_inherited_rule vs"
  using group_by_rule_result[of vs]
  by (cases "has_inherited_rule vs") (auto simp: summarize_def Let_def)

lemma report_counts:
  assumes "summarize sp vs = Inr r"
  shows "errors (counts r) = length (filter (\<lambda>v. severity v = 0) vs)
    \<and> warnings (counts r) = length (filter (\<lambda>v. severity v = 1) vs)
    \<and> total_count (counts r) = length vs
    \<and> pass r = (filter (\<lambda>v. severity v = 0) vs = [])"
proof -
  from assms have c: "counts r = \<lparr> errors = length (filter (\<lambda>v. severity v = 0) vs),
      warnings = length (filter (\<lambda>v. severity v = 1) vs), total_count = length vs \<rparr>"
    by (rule summarize_Inr)
  from assms have p: "pass r = (filter (\<lambda>v. severity v = 0) vs = [])"
    by (rule summarize_Inr)
  from c p show ?thesis by simp
qed

lemma breakdown_member:
  assumes "summarize sp vs = Inr r" and "g \<in> set (ruleBreakdown r)"
  shows "rule g \<in> code ` set vs \<and> g = to_rule_group (rule g, group_of (rule g) vs)"
proof -
  from assms(1) obtain al where g: "grouped vs al"
    and rb: "ruleBreakdown r = map to_rule_group (js_sort compare_entries (object_entries al))"
    by (rule summarize_Inr)
  from assms(2) rb obtain e where e: "e \<in> set al" and ge: "g = to_rule_group e"
    by (auto simp: set_js_sort set_object_entries)
  have "rule g = fst e" by (simp add: ge to_rule_group_def Let_def)
  with grouped_entry[OF g e] ge show ?thesis
    by (metis prod.collapse)
qed

lemma find_filter:
  "find P xs = (case filter P xs of [] \<Rightarrow> None | x # _ \<Rightarrow> Some x)"
  by (induction xs) auto

lemma sum_list_indicator:
  "distinct ks \<Longrightarrow> (\<Sum>k\<leftarrow>ks. if k0 = k then 1 else 0) = (if k0 \<in> set ks then 1 else (0::nat))"
  by (induction ks) auto

lemma sum_group_sizes:
  assumes "distinct ks" and "code ` set vs \<subseteq> set ks"
  shows "(\<Sum>k\<leftarrow>ks. length (rule_findings k vs)) = length vs"
  using assms(2)
proof (induction vs)
  case Nil
  show ?case by (simp add: rule_findings_def)
next
  case (Cons v vs)
  have one: "(\<Sum>k\<leftarrow>ks. if code v = k then 1 else 0) = (1::nat)"
    using assms(1) Cons.prems by (simp add: sum_list_indicator)
  have "(\<Sum>k\<leftarrow>ks. length (rule_findings k (v # vs)))
        = (\<Sum>k\<leftarrow>ks. length (rule_findings k vs) + (if code v = k then 1 else 0))"
    by (intro arg_cong[where f = sum_list] map_cong) (auto simp: rule_findings_def)
  also have "\<dots> = (\<Sum>k\<leftarrow>ks. length (rule_findings k vs)) + (\<Sum>k\<leftarrow>ks. if code v = k then 1 else 0)"
    by (simp add: sum_list_addf)
  finally show ?case using Cons one by simp
qed

lemma sum_breakdown_counts:
  assumes "summarize sp vs = Inr r"
  shows "(\<Sum>g\<leftarrow>ruleBreakdown r. count g) = length vs"
proof -
  from assms obtain al where g: "grouped vs al"
    and rb: "ruleBreakdown r = map to_rule_group (js_sort compare_entries (object_entries al))"
    by (rule summarize_Inr)
  let ?S = "js_sort compare_entries (object_entries al)"
  let ?f = "\<lambda>e. length (rule_findings (fst e) vs)"
  from g have dk: "distinct (map fst al)" and ks: "set (map fst al) = code ` set vs"
    by (simp_all add: grouped_def)
  from dk have "distinct al" by (rule distinct_map[THEN iffD1, THEN conjunct1])
  then have dS: "distinct ?S" by (simp add: distinct_js_sort distinct_object_entries)
  have "(\<Sum>g\<leftarrow>ruleBreakdown r. count g) = (\<Sum>e\<leftarrow>?S. data_count (snd e))"
    by (simp add: rb comp_def to_rule_group_def Let_def)
  also have "\<dots> = (\<Sum>e\<leftarrow>?S. ?f e)"
    using grouped_entry[OF g]
    by (intro arg_cong[where f = sum_list] map_cong) (auto simp: set_js_sort set_object_entries group_of_def)
  also have "\<dots> = sum ?f (set ?S)"
    using dS by (rule sum_list_distinct_conv_sum_set)
  also have "\<dots> = sum ?f (set al)"
    by (simp add: set_js_sort set_object_entries)
  also have "\<dots> = (\<Sum>e\<leftarrow>al. ?f e)"
    using \<open>distinct al\<close> by (rule sum_list_distinct_conv_sum_set[symmetric])
  also have "\<dots> = (\<Sum>k\<leftarrow>map fst al. length (rule_findings k vs))"
    by (simp add: comp_def)
  also have "\<dots> = length vs"
    using dk ks by (intro sum_group_sizes) simp_all
  finally show ?thesis .
qed

lemma decimal_value_snoc:
  "decimal_value (s @ [c]) = 10 * decimal_value s + (of_char c - 48)"
  by (simp add: decimal_value_def)

lemma of_char_digit_char:
  assumes "d < 10"
  shows "(of_char (digit_char d) :: int) = 48 + int d"
proof -
  have "char_of (48 + d) = char_of (of_nat (48 + d) :: int)"
    by (simp only: char_of_nat)
  then have "(of_char (digit_char d) :: int) = of_nat (48 + d) mod 256"
    by (simp only: digit_char_def of_char_of)
  with assms show ?thesis by simp
qed

lemma decimal_value_show_nat: "decimal_value (show_nat n) = int n"
proof (induction n rule: show_nat.induct)
  case (1 n)
  show ?case
  proof (cases "n < 10")
    case True
    then show ?thesis
      by (subst show_nat.simps) (simp add: decimal_value_def of_char_digit_char)
  next
    case False
    with 1 have "decimal_value (show_nat (n div 10)) = int (n div 10)" by simp
    with False show ?thesis
      by (subst show_nat.simps) (simp add: decimal_value_snoc of_char_digit_char zdiv_int zmod_int)
  qed
qed

lemma length_two_filters:
  "(\<And>x. P x \<Longrightarrow> \<not> Q x) \<Longrightarrow> length (filter P xs) + length (filter Q xs) \<le> length xs"
  by (induction xs) auto

subsection \<open>The order of enumeration\<close>

lemma nth_filter_sorted:
  "sorted_wrt R (filter P xs) \<Longrightarrow> i < j \<Longrightarrow> j < length xs \<Longrightarrow> P (xs ! i) \<Longrightarrow> P (xs ! j)
   \<Longrightarrow> R (xs ! i) (xs ! j)"
proof (induction xs arbitrary: i j)
  case Nil
  then show ?case by simp
next
  case (Cons x xs)
  from Cons.prems(2) obtain j' where j: "j = Suc j'" by (cases j) auto
  show ?case
  proof (cases i)
    case 0
    with Cons.prems j have "P x" and "xs ! j' \<in> set (filter P xs)" by auto
    with Cons.prems(1) 0 j show ?thesis by auto
  next
    case (Suc i')
    from Cons.prems(1) have "sorted_wrt R (filter P xs)" by (auto split: if_splits)
    with Cons.IH[of i' j'] Cons.prems Suc j show ?thesis by simp
  qed
qed

lemma digit_char_of_digit:
  assumes "is_digit c"
  shows "0 \<le> (of_char c :: int) - 48" and "(of_char c :: int) - 48 < 10"
    and "digit_char (nat (of_char c - 48)) = c"
proof -
  have n: "(of_char c :: int) = int (of_char c :: nat)"
    by (simp only: of_nat_of_char)
  from assms have r: "48 \<le> (of_char c :: nat)" "(of_char c :: nat) \<le> 57"
    by (simp_all add: is_digit_def)
  from n r show "0 \<le> (of_char c :: int) - 48" and "(of_char c :: int) - 48 < 10"
    by simp_all
  from n r have "48 + nat (of_char c - 48) = (of_char c :: nat)"
    by simp
  then show "digit_char (nat (of_char c - 48)) = c"
    by (simp add: digit_char_def)
qed

lemma decimal_value_nonneg: "list_all is_digit s \<Longrightarrow> 0 \<le> decimal_value s"
proof (induction s rule: rev_induct)
  case Nil
  show ?case by (simp add: decimal_value_def)
next
  case (snoc c s)
  then have "0 \<le> decimal_value s" and "is_digit c" by simp_all
  with digit_char_of_digit(1)[of c] show ?case
    by (simp add: decimal_value_snoc)
qed

lemma decimal_value_positive:
  "list_all is_digit s \<Longrightarrow> s \<noteq> [] \<Longrightarrow> hd s \<noteq> CHR ''0'' \<Longrightarrow> 0 < decimal_value s"
proof (induction s rule: rev_induct)
  case Nil
  then show ?case by simp
next
  case (snoc c s)
  then have c: "is_digit c" and s: "list_all is_digit s" by simp_all
  show ?case
  proof (cases "s = []")
    case True
    with snoc.prems have "c \<noteq> CHR ''0''" by simp
    then have "(of_char c :: nat) \<noteq> of_char CHR ''0''"
      by (simp only: of_char_eq_iff not_False_eq_True)
    then have "(of_char c :: nat) \<noteq> 48"
      by simp
    moreover from c have "48 \<le> (of_char c :: nat)" by (simp add: is_digit_def)
    moreover have "(of_char c :: int) = int (of_char c :: nat)" by (simp only: of_nat_of_char)
    ultimately have "0 < (of_char c :: int) - 48" by simp
    with True show ?thesis by (simp add: decimal_value_def)
  next
    case False
    with snoc have "0 < decimal_value s" by simp
    with digit_char_of_digit(1)[OF c] show ?thesis
      by (simp add: decimal_value_snoc)
  qed
qed

lemma show_nat_decimal_value:
  "s \<noteq> [] \<Longrightarrow> list_all is_digit s \<Longrightarrow> length s = 1 \<or> hd s \<noteq> CHR ''0'' \<Longrightarrow>
   show_nat (nat (decimal_value s)) = s"
proof (induction s rule: rev_induct)
  case Nil
  then show ?case by simp
next
  case (snoc c s)
  then have c: "is_digit c" and s: "list_all is_digit s" by simp_all
  let ?d = "(of_char c :: int) - 48"
  note d = digit_char_of_digit[OF c]
  show ?case
  proof (cases "s = []")
    case True
    with d show ?thesis
      by (subst show_nat.simps) (simp add: decimal_value_def nat_less_iff)
  next
    case False
    with snoc.prems have hd: "hd s \<noteq> CHR ''0''" by simp
    with snoc.IH False s have ih: "show_nat (nat (decimal_value s)) = s" by simp
    from decimal_value_positive[OF s False hd] have pos: "0 < decimal_value s" .
    let ?n = "nat (decimal_value (s @ [c]))"
    have n: "?n = 10 * nat (decimal_value s) + nat ?d"
      using pos d by (simp add: decimal_value_snoc nat_add_distrib nat_mult_distrib)
    from pos have "\<not> ?n < 10" unfolding n by simp
    moreover have "?n div 10 = nat (decimal_value s)" and "?n mod 10 = nat ?d"
      unfolding n using d by (simp_all add: nat_less_iff)
    ultimately show ?thesis
      using ih d(3) by (subst show_nat.simps) simp
  qed
qed

lemma array_index_canonical:
  assumes "is_array_index k"
  shows "show_nat (nat (decimal_value k)) = k"
proof -
  from assms have "k \<noteq> []" and "list_all is_digit k" and "length k = 1 \<or> hd k \<noteq> CHR ''0''"
    unfolding is_array_index_def by blast+
  then show ?thesis by (rule show_nat_decimal_value)
qed

lemma decimal_value_inj:
  assumes "is_array_index a" and "is_array_index b" and "decimal_value a = decimal_value b"
  shows "a = b"
proof -
  have "a = show_nat (nat (decimal_value a))"
    using array_index_canonical[OF assms(1)] by (rule sym)
  also have "\<dots> = show_nat (nat (decimal_value b))"
    by (simp only: assms(3))
  also have "\<dots> = b"
    by (rule array_index_canonical[OF assms(2)])
  finally show ?thesis .
qed

lemma sorted_object_entries:
  assumes "grouped vs al"
  shows "sorted_wrt (\<lambda>a b. enumerated_before vs (fst a) (fst b)) (object_entries al)"
proof -
  let ?R = "\<lambda>a b. enumerated_before vs (fst a) (fst b)"
  let ?f = "\<lambda>e. decimal_value (fst e)"
  let ?A = "sort_key ?f (filter (\<lambda>e. is_array_index (fst e)) al)"
  let ?B = "filter (\<lambda>e. \<not> is_array_index (fst e)) al"
  from assms have dk: "distinct (map fst al)"
    by (simp add: grouped_def)
  then have dal: "distinct al" and inj: "inj_on fst (set al)"
    by (simp_all add: distinct_map)
  have "inj_on ?f (set ?A)"
  proof (rule inj_onI)
    fix x y
    assume "x \<in> set ?A" and "y \<in> set ?A" and eq: "?f x = ?f y"
    then have x: "x \<in> set al" "is_array_index (fst x)" and y: "y \<in> set al" "is_array_index (fst y)"
      by simp_all
    from decimal_value_inj[OF x(2) y(2) eq] have "fst x = fst y" .
    from inj_onD[OF inj this x(1) y(1)] show "x = y" .
  qed
  moreover from dal have "distinct ?A" by simp
  ultimately have "distinct (map ?f ?A)"
    by (simp add: distinct_map)
  moreover have "sorted (map ?f ?A)"
    by (rule sorted_sort_key)
  ultimately have "sorted_wrt (<) (map ?f ?A)"
    by (simp add: strict_sorted_iff)
  then have sa: "sorted_wrt (\<lambda>a b. ?f a < ?f b) ?A"
    by (simp add: sorted_wrt_map)
  have A: "sorted_wrt ?R ?A"
    by (rule sorted_wrt_mono_rel[OF _ sa]) (auto simp: enumerated_before_def)
  from assms have "sorted_wrt (\<lambda>a b. first_seen a vs < first_seen b vs) (map fst al)"
    by (simp add: grouped_def)
  then have "sorted_wrt (\<lambda>a b. first_seen (fst a) vs < first_seen (fst b) vs) al"
    by (simp add: sorted_wrt_map)
  then have sb: "sorted_wrt (\<lambda>a b. first_seen (fst a) vs < first_seen (fst b) vs) ?B"
    by (rule sorted_wrt_filter)
  have B: "sorted_wrt ?R ?B"
    by (rule sorted_wrt_mono_rel[OF _ sb]) (auto simp: enumerated_before_def)
  have "\<forall>a \<in> set ?A. \<forall>b \<in> set ?B. ?R a b"
    by (auto simp: enumerated_before_def)
  with A B show ?thesis
    by (simp add: object_entries_def sorted_wrt_append)
qed

lemma sorted_entries_nth:
  assumes "grouped vs al" and "i < j" and "j < length al"
  defines "S \<equiv> js_sort compare_entries (object_entries al)"
  shows "data_severity (snd (S ! i)) < data_severity (snd (S ! j))
    \<or> (data_severity (snd (S ! i)) = data_severity (snd (S ! j))
        \<and> data_count (snd (S ! j)) < data_count (snd (S ! i)))
    \<or> (data_severity (snd (S ! i)) = data_severity (snd (S ! j))
        \<and> data_count (snd (S ! i)) = data_count (snd (S ! j))
        \<and> enumerated_before vs (fst (S ! i)) (fst (S ! j)))"
proof -
  have len: "length S = length al"
    by (simp add: S_def length_js_sort length_object_entries)
  have "sorted_wrt (\<lambda>a b. compare_entries a b \<le> 0) S"
    unfolding S_def by (rule sorted_entries)
  with assms(2,3) len have le: "compare_entries (S ! i) (S ! j) \<le> 0"
    by (simp add: sorted_wrt_iff_nth_less)
  show ?thesis
  proof (cases "data_severity (snd (S ! i)) = data_severity (snd (S ! j))
                \<and> data_count (snd (S ! i)) = data_count (snd (S ! j))")
    case False
    with le show ?thesis by (auto simp: compare_entries_le)
  next
    case True
    let ?P = "\<lambda>e. data_severity (snd e) = data_severity (snd (S ! i))
                  \<and> data_count (snd e) = data_count (snd (S ! i))"
    let ?R = "\<lambda>a b. enumerated_before vs (fst a) (fst b)"
    have "filter ?P S = filter ?P (object_entries al)"
      unfolding S_def by (rule filter_js_sort) (simp add: compare_entries_le)
    moreover have "sorted_wrt ?R (filter ?P (object_entries al))"
      using sorted_object_entries[OF assms(1)] by (rule sorted_wrt_filter)
    ultimately have srt: "sorted_wrt ?R (filter ?P S)" by simp
    have Pi: "?P (S ! i)" by simp
    have Pj: "?P (S ! j)" using True by simp
    have jS: "j < length S" using assms(3) len by simp
    have "?R (S ! i) (S ! j)"
      by (rule nth_filter_sorted[OF srt assms(2) jS Pi Pj])
    with True show ?thesis by blast
  qed
qed


lemma grouped_first_finding:
  assumes "grouped vs al" and "e \<in> set al"
  shows "\<exists>v. find (\<lambda>v. code v = fst e) vs = Some v \<and> data_severity (snd e) = severity v"
proof -
  from grouped_entry[OF assms]
  have mem: "fst e \<in> code ` set vs" and e: "snd e = group_of (fst e) vs" by simp_all
  from mem obtain v rest where f: "rule_findings (fst e) vs = v # rest"
    using rule_findings_empty_iff[of "fst e" vs] by (cases "rule_findings (fst e) vs") auto
  then have "find (\<lambda>v. code v = fst e) vs = Some v"
    by (simp add: find_filter rule_findings_def)
  moreover from f e have "data_severity (snd e) = severity v"
    by (simp add: group_of_def)
  ultimately show ?thesis by blast
qed

subsection \<open>Counts\<close>

text \<open>
  Claim C6. Whenever \<^verbatim>\<open>summarize\<close> returns a report, the count of each rule group is the
  number of findings whose rule identifier is the group's rule, \<^verbatim>\<open>counts.errors\<close> is the
  number of findings of severity 0, \<^verbatim>\<open>counts.warnings\<close> the number of findings of
  severity 1, and \<^verbatim>\<open>counts.total\<close> the number of findings.
\<close>
theorem summarize_counts:
  assumes "summarize sp vs = Inr r" and "g \<in> set (ruleBreakdown r)"
  shows "count g = length (filter (\<lambda>v. code v = rule g) vs)
         \<and> errors (counts r) = length (filter (\<lambda>v. severity v = 0) vs)
         \<and> warnings (counts r) = length (filter (\<lambda>v. severity v = 1) vs)
         \<and> total_count (counts r) = length vs"
proof -
  from breakdown_member[OF assms]
  have "count g = count (to_rule_group (rule g, group_of (rule g) vs))" by simp
  then have "count g = length (filter (\<lambda>v. code v = rule g) vs)"
    by (simp add: to_rule_group_def group_of_def rule_findings_def Let_def)
  moreover from assms(1) have "counts r = \<lparr> errors = length (filter (\<lambda>v. severity v = 0) vs),
      warnings = length (filter (\<lambda>v. severity v = 1) vs), total_count = length vs \<rparr>"
    by (rule summarize_Inr)
  ultimately show ?thesis by simp
qed

text \<open>The example of three errors and one warning.\<close>

theorem summarize_counts_witness:
  "summarize ''/repo/openapi.yaml'' four_findings = Inr four_report
   \<and> hd (ruleBreakdown four_report) \<in> set (ruleBreakdown four_report)
   \<and> count (hd (ruleBreakdown four_report)) = 3
   \<and> errors (counts four_report) = 3
   \<and> warnings (counts four_report) = 1
   \<and> total_count (counts four_report) = 4"
proof -
  have h: "summarize ''/repo/openapi.yaml'' four_findings = Inr four_report"
    by code_simp
  have m: "hd (ruleBreakdown four_report) \<in> set (ruleBreakdown four_report)"
    by (simp add: four_report_def)
  show ?thesis
    using h m summarize_counts[OF h m] by (simp add: four_report_def)
qed

subsection \<open>Truncation of the locations\<close>

text \<open>
  Claim C4. Every rule group of an emitted report lists at most five locations, those of
  the first five findings of the rule in encounter order. When the rule has more than
  five findings the group has the property \<^verbatim>\<open>truncated\<close>, the text of the number of
  findings minus five followed by \<^verbatim>\<open> more\<close>; otherwise the group has no such property.
\<close>
theorem locations_truncated:
  assumes "summarize sp vs = Inr r" and "g \<in> set (ruleBreakdown r)"
  shows "length (locations g) \<le> 5
    \<and> locations g = map to_location (take 5 (filter (\<lambda>v. code v = rule g) vs))
    \<and> truncated g =
        (if length (filter (\<lambda>v. code v = rule g) vs) > 5
         then Some (show_nat (length (filter (\<lambda>v. code v = rule g) vs) - 5) @ '' more'')
         else None)
    \<and> (length (filter (\<lambda>v. code v = rule g) vs) > 5 \<longrightarrow>
         decimal_value (show_nat (length (filter (\<lambda>v. code v = rule g) vs) - 5))
           = int (length (filter (\<lambda>v. code v = rule g) vs)) - 5)"
proof -
  from breakdown_member[OF assms]
  have g: "g = to_rule_group (rule g, group_of (rule g) vs)" by simp
  have "locations g = locations (to_rule_group (rule g, group_of (rule g) vs))"
    using g by simp
  then have 1: "locations g = map to_location (take 5 (filter (\<lambda>v. code v = rule g) vs))"
    by (simp add: to_rule_group_def group_of_def rule_findings_def Let_def take_map)
  have "truncated g = truncated (to_rule_group (rule g, group_of (rule g) vs))"
    using g by simp
  then have 2: "truncated g =
        (if length (filter (\<lambda>v. code v = rule g) vs) > 5
         then Some (show_nat (length (filter (\<lambda>v. code v = rule g) vs) - 5) @ '' more'')
         else None)"
    by (simp add: to_rule_group_def group_of_def rule_findings_def Let_def)
  have 3: "decimal_value (show_nat (length (filter (\<lambda>v. code v = rule g) vs) - 5))
        = int (length (filter (\<lambda>v. code v = rule g) vs)) - 5"
    if "5 < length (filter (\<lambda>v. code v = rule g) vs)"
    using that by (simp add: decimal_value_show_nat)
  from 1 have "length (locations g) \<le> 5" by simp
  with 1 2 3 show ?thesis by simp
qed

text \<open>Seven findings of one rule: five locations and \<^verbatim>\<open>2 more\<close>.\<close>

theorem locations_truncated_witness:
  "summarize ''/repo/openapi.yaml'' seven_findings = Inr seven_report
   \<and> hd (ruleBreakdown seven_report) \<in> set (ruleBreakdown seven_report)
   \<and> length (locations (hd (ruleBreakdown seven_report))) = 5
   \<and> length (filter (\<lambda>v. code v = ''no-eval-in-markdown'') seven_findings) = 7
   \<and> truncated (hd (ruleBreakdown seven_report)) = Some ''2 more''"
proof -
  have h: "summarize ''/repo/openapi.yaml'' seven_findings = Inr seven_report"
    by code_simp
  have m: "hd (ruleBreakdown seven_report) \<in> set (ruleBreakdown seven_report)"
    by (simp add: seven_report_def)
  have n: "length (filter (\<lambda>v. code v = ''no-eval-in-markdown'') seven_findings) = 7"
    by code_simp
  show ?thesis
    using h m n locations_truncated[OF h m] by (simp add: seven_report_def)
qed

subsection \<open>Severity labels\<close>

text \<open>
  Claim C8. The severity of every rule group of an emitted report is the label of the
  severity of the first finding encountered for the group's rule: \<^verbatim>\<open>error\<close> for 0,
  \<^verbatim>\<open>warning\<close> for 1, \<^verbatim>\<open>info\<close> for 2 and \<^verbatim>\<open>hint\<close> for 3.
\<close>

theorem group_severity_label:
  assumes "summarize sp vs = Inr r" and "g \<in> set (ruleBreakdown r)"
  shows "\<exists>v. find (\<lambda>v. code v = rule g) vs = Some v
           \<and> severity_label g = severity_text (severity v)
           \<and> (severity v = 0 \<longrightarrow> severity_label g = ''error'')
           \<and> (severity v = 1 \<longrightarrow> severity_label g = ''warning'')
           \<and> (severity v = 2 \<longrightarrow> severity_label g = ''info'')
           \<and> (severity v = 3 \<longrightarrow> severity_label g = ''hint'')"
proof -
  from breakdown_member[OF assms]
  have mem: "rule g \<in> code ` set vs"
    and g: "g = to_rule_group (rule g, group_of (rule g) vs)" by simp_all
  from mem obtain v rest where f: "rule_findings (rule g) vs = v # rest"
    using rule_findings_empty_iff[of "rule g" vs] by (cases "rule_findings (rule g) vs") auto
  then have first: "find (\<lambda>v. code v = rule g) vs = Some v"
    by (simp add: find_filter rule_findings_def)
  have "severity_label g = severity_label (to_rule_group (rule g, group_of (rule g) vs))"
    using g by simp
  then have "severity_label g = severity_text (severity v)"
    using f by (simp add: to_rule_group_def group_of_def Let_def)
  with first show ?thesis
    by (auto simp: severity_text_def SEVERITY_LABELS_def)
qed

text \<open>The label comes from the first finding (severity 2), not from the later errors.\<close>

theorem group_severity_label_witness:
  "summarize ''/repo/openapi.yaml'' mixed_findings = Inr mixed_report
   \<and> hd (ruleBreakdown mixed_report) \<in> set (ruleBreakdown mixed_report)
   \<and> find (\<lambda>v. code v = rule (hd (ruleBreakdown mixed_report))) mixed_findings
       = Some (sample ''oas3-schema'' 2 7)
   \<and> severity (sample ''oas3-schema'' 2 7) = 2
   \<and> severity_label (hd (ruleBreakdown mixed_report)) = ''info''"
proof -
  have h: "summarize ''/repo/openapi.yaml'' mixed_findings = Inr mixed_report"
    by code_simp
  have m: "hd (ruleBreakdown mixed_report) \<in> set (ruleBreakdown mixed_report)"
    by (simp add: mixed_report_def)
  have f: "find (\<lambda>v. code v = rule (hd (ruleBreakdown mixed_report))) mixed_findings
       = Some (sample ''oas3-schema'' 2 7)"
    by (simp add: mixed_report_def mixed_findings_def sample_def)
  have s: "severity (sample ''oas3-schema'' 2 7) = 2"
    by (simp add: sample_def)
  from group_severity_label[OF h m] obtain v
    where v: "find (\<lambda>v. code v = rule (hd (ruleBreakdown mixed_report))) mixed_findings = Some v"
      and l: "severity v = 2 \<longrightarrow> severity_label (hd (ruleBreakdown mixed_report)) = ''info''"
    by blast
  from v f have "v = sample ''oas3-schema'' 2 7" by simp
  with l s have "severity_label (hd (ruleBreakdown mixed_report)) = ''info''"
    by simp
  with h m f s show ?thesis by simp
qed

subsection \<open>Invariants of a report\<close>

text \<open>
  Claim C9. In every report that \<^verbatim>\<open>summarize\<close> returns, the counts of the rule groups add
  up to \<^verbatim>\<open>counts.total\<close>, \<^verbatim>\<open>counts.errors + counts.warnings\<close> is at most
  \<^verbatim>\<open>counts.total\<close>, and every rule group lists \<open>min count 5\<close> locations.
\<close>

theorem report_invariants:
  assumes "summarize sp vs = Inr r"
  shows "(\<Sum>g\<leftarrow>ruleBreakdown r. count g) = total_count (counts r)
    \<and> errors (counts r) + warnings (counts r) \<le> total_count (counts r)
    \<and> list_all (\<lambda>g. length (locations g) = min (count g) 5) (ruleBreakdown r)"
proof -
  from assms have c: "counts r = \<lparr> errors = length (filter (\<lambda>v. severity v = 0) vs),
      warnings = length (filter (\<lambda>v. severity v = 1) vs), total_count = length vs \<rparr>"
    by (rule summarize_Inr)
  have 1: "(\<Sum>g\<leftarrow>ruleBreakdown r. count g) = total_count (counts r)"
    using sum_breakdown_counts[OF assms] c by simp
  have "length (filter (\<lambda>v. severity v = 0) vs) + length (filter (\<lambda>v. severity v = 1) vs)
          \<le> length vs"
    by (rule length_two_filters) simp
  with c have 2: "errors (counts r) + warnings (counts r) \<le> total_count (counts r)"
    by simp
  have 3: "length (locations g) = min (count g) 5" if "g \<in> set (ruleBreakdown r)" for g
  proof -
    from breakdown_member[OF assms that]
    have g: "g = to_rule_group (rule g, group_of (rule g) vs)" by simp
    have "length (locations (to_rule_group (rule g, group_of (rule g) vs)))
          = min (count (to_rule_group (rule g, group_of (rule g) vs))) 5"
      by (simp add: to_rule_group_def group_of_def Let_def)
    with g show ?thesis by simp
  qed
  from 1 2 3 show ?thesis by (simp add: list_all_iff)
qed

theorem report_invariants_witness:
  "summarize ''/repo/openapi.yaml'' seven_findings = Inr seven_report
   \<and> (\<Sum>g\<leftarrow>ruleBreakdown seven_report. count g) = 7
   \<and> total_count (counts seven_report) = 7
   \<and> errors (counts seven_report) + warnings (counts seven_report) = 7
   \<and> list_all (\<lambda>g. length (locations g) = min (count g) 5) (ruleBreakdown seven_report)"
proof -
  have h: "summarize ''/repo/openapi.yaml'' seven_findings = Inr seven_report"
    by code_simp
  show ?thesis
    using h report_invariants[OF h] by (simp add: seven_report_def)
qed


subsection \<open>Texts of numbers and paths\<close>

lemma of_char_digit_char_nat: "d < 10 \<Longrightarrow> (of_char (digit_char d) :: nat) = 48 + d"
  by (simp add: digit_char_def)

lemma digit_char_is_digit: "d < 10 \<Longrightarrow> is_digit (digit_char d)"
  by (simp add: is_digit_def of_char_digit_char_nat)

lemma digit_char_not_zero: "0 < d \<Longrightarrow> d < 10 \<Longrightarrow> digit_char d \<noteq> CHR ''0''"
proof
  assume d: "0 < d" "d < 10" and "digit_char d = CHR ''0''"
  then have "(of_char (digit_char d) :: nat) = of_char CHR ''0''" by simp
  with d show False by (simp add: of_char_digit_char_nat)
qed

lemma show_nat_nonempty: "show_nat n \<noteq> []"
  by (subst show_nat.simps) simp

lemma show_nat_digits: "list_all is_digit (show_nat n)"
proof (induction n rule: show_nat.induct)
  case (1 n)
  show ?case
  proof (cases "n < 10")
    case True
    then show ?thesis
      by (subst show_nat.simps) (simp add: digit_char_is_digit)
  next
    case False
    with 1 have "list_all is_digit (show_nat (n div 10))" by simp
    with False show ?thesis
      by (subst show_nat.simps) (simp add: digit_char_is_digit)
  qed
qed

lemma hd_show_nat: "0 < n \<Longrightarrow> hd (show_nat n) \<noteq> CHR ''0''"
proof (induction n rule: show_nat.induct)
  case (1 n)
  show ?case
  proof (cases "n < 10")
    case True
    with 1(2) show ?thesis
      by (subst show_nat.simps) (simp add: digit_char_not_zero)
  next
    case False
    then have "0 < n div 10" by simp
    with 1(1) False have "hd (show_nat (n div 10)) \<noteq> CHR ''0''" by simp
    with False show ?thesis
      by (subst show_nat.simps) (simp add: show_nat_nonempty)
  qed
qed

lemma show_nat_canonical: "length (show_nat n) = 1 \<or> hd (show_nat n) \<noteq> CHR ''0''"
proof (cases "n = 0")
  case True
  then show ?thesis by (subst show_nat.simps) simp
next
  case False
  then show ?thesis by (simp add: hd_show_nat)
qed

lemma decimal_text_show_nat: "0 \<le> n \<Longrightarrow> decimal_text n (show_nat (nat n))"
  using show_nat_canonical[of "nat n"]
  by (simp add: decimal_text_def show_nat_nonempty show_nat_digits decimal_value_show_nat)

lemma join_dots:
  "ts \<noteq> [] \<Longrightarrow> CHR ''.'' # join ''.'' ts = concat (map ((#) CHR ''.'') ts)"
  by (induction "''.''" ts rule: join.induct) simp_all


lemma to_string_rendering:
  "(case seg of
      JUndefined \<Rightarrow> to_string seg = []
    | JNull \<Rightarrow> to_string seg = []
    | JBool b \<Rightarrow> to_string seg = (if b then ''true'' else ''false'')
    | JNumber n \<Rightarrow>
        (0 \<le> n \<and> n < 2 ^ 53 \<longrightarrow> decimal_text n (to_string seg))
        \<and> (- (2 ^ 53) < n \<and> n < 0 \<longrightarrow>
             (\<exists>u. to_string seg = CHR ''-'' # u \<and> decimal_text (- n) u))
    | JString s \<Rightarrow> to_string seg = s)"
  by (cases seg) (simp_all add: show_int_def decimal_text_show_nat)

lemma to_location_line:
  "(vrange v = None \<longrightarrow> loc_line (to_location v) = Null)
   \<and> (\<forall>rg. vrange v = Some rg \<and> start rg = None \<longrightarrow> loc_line (to_location v) = Null)
   \<and> (\<forall>rg p. vrange v = Some rg \<and> start rg = Some p \<and> (\<forall>n. line p \<noteq> JNumber n)
         \<longrightarrow> loc_line (to_location v) = Null)
   \<and> (\<forall>rg p n. vrange v = Some rg \<and> start rg = Some p \<and> line p = JNumber n
         \<longrightarrow> loc_line (to_location v) = Val (n + 1))"
proof (intro conjI allI impI)
  show "loc_line (to_location v) = Null" if "vrange v = None"
    using that by (simp add: to_location_def range_start_line_def)
  show "loc_line (to_location v) = Null" if "vrange v = Some rg \<and> start rg = None" for rg
    using that by (simp add: to_location_def range_start_line_def)
  show "loc_line (to_location v) = Null"
    if "vrange v = Some rg \<and> start rg = Some p \<and> (\<forall>n. line p \<noteq> JNumber n)" for rg p
    using that by (cases "line p") (simp_all add: to_location_def range_start_line_def)
  show "loc_line (to_location v) = Val (n + 1)"
    if "vrange v = Some rg \<and> start rg = Some p \<and> line p = JNumber n" for rg p n
    using that by (simp add: to_location_def range_start_line_def)
qed

subsection \<open>Locations\<close>

text \<open>
  Claim C10. Each location listed in a rule group of an emitted report comes from the
  finding at the same position among the findings of that rule. Its message is the
  finding's message. Its line is \<^verbatim>\<open>null\<close> when the finding has no range, when the range
  has no start, and when the line of the start is absent or not a number; it is the
  line plus one when the line is a number (of magnitude below \<open>2^53\<close>, where the
  runtime's addition is exact). Its path is the texts of the finding's path segments
  joined with a dot, where a text segment stands for itself, \<^verbatim>\<open>null\<close> and
  \<^verbatim>\<open>undefined\<close> give the empty text, a boolean gives \<^verbatim>\<open>true\<close> or \<^verbatim>\<open>false\<close>, and a
  number (of magnitude below \<open>2^53\<close>) gives its decimal numeral, with a minus sign
  when negative.
\<close>

theorem location_fields:
  assumes "summarize sp vs = Inr r" and "g \<in> set (ruleBreakdown r)"
    and "i < length (locations g)"
    and "v = filter (\<lambda>v. code v = rule g) vs ! i"
  shows "i < length (filter (\<lambda>v. code v = rule g) vs)
    \<and> loc_message (locations g ! i) = message v
    \<and> (vrange v = None \<longrightarrow> loc_line (locations g ! i) = Null)
    \<and> (\<forall>rg. vrange v = Some rg \<and> start rg = None \<longrightarrow> loc_line (locations g ! i) = Null)
    \<and> (\<forall>rg p. vrange v = Some rg \<and> start rg = Some p \<and> (\<forall>n. line p \<noteq> JNumber n)
          \<longrightarrow> loc_line (locations g ! i) = Null)
    \<and> (\<forall>rg p n. vrange v = Some rg \<and> start rg = Some p \<and> line p = JNumber n
            \<and> - (2 ^ 53) < n \<and> n < 2 ^ 53
          \<longrightarrow> loc_line (locations g ! i) = Val (n + 1))
    \<and> (\<exists>texts.
          list_all2
            (\<lambda>seg t. case seg of
                JUndefined \<Rightarrow> t = []
              | JNull \<Rightarrow> t = []
              | JBool b \<Rightarrow> t = (if b then ''true'' else ''false'')
              | JNumber n \<Rightarrow>
                  (0 \<le> n \<and> n < 2 ^ 53 \<longrightarrow> decimal_text n t)
                  \<and> (- (2 ^ 53) < n \<and> n < 0 \<longrightarrow> (\<exists>u. t = CHR ''-'' # u \<and> decimal_text (- n) u))
              | JString s \<Rightarrow> t = s)
            (path v) texts
          \<and> (texts = [] \<longrightarrow> loc_path (locations g ! i) = [])
          \<and> (texts \<noteq> [] \<longrightarrow>
               CHR ''.'' # loc_path (locations g ! i) = concat (map ((#) CHR ''.'') texts)))"
proof -
  from breakdown_member[OF assms(1,2)]
  have g: "g = to_rule_group (rule g, group_of (rule g) vs)" by simp
  have "locations g = locations (to_rule_group (rule g, group_of (rule g) vs))"
    using g by simp
  then have l: "locations g = map to_location (take 5 (filter (\<lambda>v. code v = rule g) vs))"
    by (simp add: to_rule_group_def group_of_def rule_findings_def Let_def take_map)
  with assms(3) have i: "i < length (filter (\<lambda>v. code v = rule g) vs)" and i5: "i < 5"
    by simp_all
  with l assms(4) have at: "locations g ! i = to_location v"
    by simp
  have msg: "loc_message (to_location v) = message v"
    by (simp add: to_location_def)
  let ?texts = "map to_string (path v)"
  have segs: "list_all2
            (\<lambda>seg t. case seg of
                JUndefined \<Rightarrow> t = []
              | JNull \<Rightarrow> t = []
              | JBool b \<Rightarrow> t = (if b then ''true'' else ''false'')
              | JNumber n \<Rightarrow>
                  (0 \<le> n \<and> n < 2 ^ 53 \<longrightarrow> decimal_text n t)
                  \<and> (- (2 ^ 53) < n \<and> n < 0 \<longrightarrow> (\<exists>u. t = CHR ''-'' # u \<and> decimal_text (- n) u))
              | JString s \<Rightarrow> t = s)
            (path v) ?texts"
    unfolding list_all2_map2 by (rule list_all2_refl) (rule to_string_rendering)
  have p: "loc_path (to_location v) = join ''.'' ?texts"
    by (simp add: to_location_def)
  have empty: "?texts = [] \<longrightarrow> loc_path (to_location v) = []"
    by (simp add: p)
  have dots: "?texts \<noteq> [] \<longrightarrow>
      CHR ''.'' # loc_path (to_location v) = concat (map ((#) CHR ''.'') ?texts)"
    unfolding p by (intro impI join_dots)
  from segs empty dots
  have path: "\<exists>texts.
          list_all2
            (\<lambda>seg t. case seg of
                JUndefined \<Rightarrow> t = []
              | JNull \<Rightarrow> t = []
              | JBool b \<Rightarrow> t = (if b then ''true'' else ''false'')
              | JNumber n \<Rightarrow>
                  (0 \<le> n \<and> n < 2 ^ 53 \<longrightarrow> decimal_text n t)
                  \<and> (- (2 ^ 53) < n \<and> n < 0 \<longrightarrow> (\<exists>u. t = CHR ''-'' # u \<and> decimal_text (- n) u))
              | JString s \<Rightarrow> t = s)
            (path v) texts
          \<and> (texts = [] \<longrightarrow> loc_path (to_location v) = [])
          \<and> (texts \<noteq> [] \<longrightarrow>
               CHR ''.'' # loc_path (to_location v) = concat (map ((#) CHR ''.'') texts))"
    by blast
  from to_location_line[of v] i msg path show ?thesis
    unfolding at by blast
qed

text \<open>
  A line 41 is reported as 42; a range without a start and a line that is a text give
  \<^verbatim>\<open>null\<close>; the segments 12, \<^verbatim>\<open>true\<close>, \<^verbatim>\<open>null\<close> and -3 give \<^verbatim>\<open>12.true..-3\<close>.
\<close>

theorem location_fields_witness:
  "summarize ''/repo/openapi.yaml'' located_findings = Inr located_report
   \<and> hd (ruleBreakdown located_report) \<in> set (ruleBreakdown located_report)
   \<and> 0 < length (locations (hd (ruleBreakdown located_report)))
   \<and> 1 < length (locations (hd (ruleBreakdown located_report)))
   \<and> 2 < length (locations (hd (ruleBreakdown located_report)))
   \<and> located_findings ! 0
       = filter (\<lambda>v. code v = rule (hd (ruleBreakdown located_report))) located_findings ! 0
   \<and> located_findings ! 1
       = filter (\<lambda>v. code v = rule (hd (ruleBreakdown located_report))) located_findings ! 1
   \<and> located_findings ! 2
       = filter (\<lambda>v. code v = rule (hd (ruleBreakdown located_report))) located_findings ! 2
   \<and> vrange (located_findings ! 0) = Some \<lparr> start = Some \<lparr> line = JNumber 41 \<rparr> \<rparr>
   \<and> - (2 ^ 53) < (41 :: int) \<and> (41 :: int) < 2 ^ 53
   \<and> loc_line (locations (hd (ruleBreakdown located_report)) ! 0) = Val 42
   \<and> vrange (located_findings ! 1) = Some \<lparr> start = None \<rparr>
   \<and> loc_line (locations (hd (ruleBreakdown located_report)) ! 1) = Null
   \<and> vrange (located_findings ! 2) = Some \<lparr> start = Some \<lparr> line = JString ''41'' \<rparr> \<rparr>
   \<and> loc_line (locations (hd (ruleBreakdown located_report)) ! 2) = Null
   \<and> path (located_findings ! 0)
       = [JString ''paths'', JString ''/quotes'', JNumber 12, JBool True, JNull, JNumber (- 3)]
   \<and> decimal_text 12 ''12'' \<and> decimal_text 3 ''3''
   \<and> CHR ''.'' # loc_path (locations (hd (ruleBreakdown located_report)) ! 0)
       = concat (map ((#) CHR ''.'') [''paths'', ''/quotes'', ''12'', ''true'', [], ''-3''])"
proof -
  let ?g = "hd (ruleBreakdown located_report)"
  have h: "summarize ''/repo/openapi.yaml'' located_findings = Inr located_report"
    by code_simp
  have m: "?g \<in> set (ruleBreakdown located_report)"
    by (simp add: located_report_def)
  have i0: "0 < length (locations ?g)" and i1: "1 < length (locations ?g)"
    and i2: "2 < length (locations ?g)"
    by (simp_all add: located_report_def)
  have f: "filter (\<lambda>v. code v = rule ?g) located_findings = located_findings"
    by (simp add: located_report_def located_findings_def)
  have v0: "located_findings ! 0 = filter (\<lambda>v. code v = rule ?g) located_findings ! 0"
    and v1: "located_findings ! 1 = filter (\<lambda>v. code v = rule ?g) located_findings ! 1"
    and v2: "located_findings ! 2 = filter (\<lambda>v. code v = rule ?g) located_findings ! 2"
    by (simp_all only: f)
  have r0: "vrange (located_findings ! 0) = Some \<lparr> start = Some \<lparr> line = JNumber 41 \<rparr> \<rparr>"
    and r1: "vrange (located_findings ! 1) = Some \<lparr> start = None \<rparr>"
    and r2: "vrange (located_findings ! 2) = Some \<lparr> start = Some \<lparr> line = JString ''41'' \<rparr> \<rparr>"
    and p0: "path (located_findings ! 0)
       = [JString ''paths'', JString ''/quotes'', JNumber 12, JBool True, JNull, JNumber (- 3)]"
    by (simp_all add: located_findings_def)
  have b: "- (2 ^ 53) < (41 :: int)" "(41 :: int) < 2 ^ 53"
    by simp_all
  from location_fields[OF h m i0 v0]
  have "\<forall>rg p n. vrange (located_findings ! 0) = Some rg \<and> start rg = Some p
            \<and> line p = JNumber n \<and> - (2 ^ 53) < n \<and> n < 2 ^ 53
          \<longrightarrow> loc_line (locations ?g ! 0) = Val (n + 1)"
    by blast
  with r0 b have l0: "loc_line (locations ?g ! 0) = Val 42"
    by fastforce
  from location_fields[OF h m i1 v1]
  have "\<forall>rg. vrange (located_findings ! 1) = Some rg \<and> start rg = None
          \<longrightarrow> loc_line (locations ?g ! 1) = Null"
    by blast
  with r1 have l1: "loc_line (locations ?g ! 1) = Null"
    by fastforce
  from location_fields[OF h m i2 v2]
  have "\<forall>rg p. vrange (located_findings ! 2) = Some rg \<and> start rg = Some p
            \<and> (\<forall>n. line p \<noteq> JNumber n)
          \<longrightarrow> loc_line (locations ?g ! 2) = Null"
    by blast
  with r2 have l2: "loc_line (locations ?g ! 2) = Null"
    by fastforce
  have d: "decimal_text 12 ''12''" "decimal_text 3 ''3''"
    by (simp_all add: decimal_text_def is_digit_def decimal_value_def)
  have c: "CHR ''.'' # loc_path (locations ?g ! 0)
       = concat (map ((#) CHR ''.'') [''paths'', ''/quotes'', ''12'', ''true'', [], ''-3''])"
    by (simp add: located_report_def)
  from h m i0 i1 i2 v0 v1 v2 r0 b l0 r1 l1 r2 l2 p0 d c show ?thesis
    by blast
qed

subsection \<open>Order of the rule groups\<close>

text \<open>
  Claim C5, as amended. In every emitted report the rule groups are ordered by the
  severity of the first finding of their rule, ascending, and within one severity by
  count, descending. Two groups tied on both stand in the order in which
  \<^verbatim>\<open>Object.entries\<close> enumerates their rules: rules that are array indices first, in
  ascending numeric order, then the other rules in the order of first encounter. For
  rules that are not array indices this is the order of first encounter.
\<close>

theorem breakdown_order:
  assumes "summarize sp vs = Inr r" and "i < j" and "j < length (ruleBreakdown r)"
  shows "\<exists>a b. find (\<lambda>v. code v = rule (ruleBreakdown r ! i)) vs = Some a
           \<and> find (\<lambda>v. code v = rule (ruleBreakdown r ! j)) vs = Some b
           \<and> (severity a < severity b
               \<or> (severity a = severity b
                   \<and> count (ruleBreakdown r ! j) < count (ruleBreakdown r ! i))
               \<or> (severity a = severity b
                   \<and> count (ruleBreakdown r ! i) = count (ruleBreakdown r ! j)
                   \<and> enumerated_before vs (rule (ruleBreakdown r ! i)) (rule (ruleBreakdown r ! j))))"
proof -
  from assms(1) obtain al where g: "grouped vs al"
    and rb: "ruleBreakdown r = map to_rule_group (js_sort compare_entries (object_entries al))"
    by (rule summarize_Inr)
  define S where "S = js_sort compare_entries (object_entries al)"
  have len: "length S = length al"
    by (simp add: S_def length_js_sort length_object_entries)
  have setS: "set S = set al"
    by (simp add: S_def set_js_sort set_object_entries)
  from assms(2,3) rb len have j: "j < length al" and i: "i < length al"
    by (simp_all add: S_def)
  have at: "rule (ruleBreakdown r ! k) = fst (S ! k) \<and> count (ruleBreakdown r ! k) = data_count (snd (S ! k))"
    if "k < length al" for k
    using that len by (simp add: rb S_def[symmetric] to_rule_group_def Let_def)
  from i len setS have "S ! i \<in> set al" by (metis nth_mem)
  from grouped_first_finding[OF g this] obtain a
    where a: "find (\<lambda>v. code v = fst (S ! i)) vs = Some a" "data_severity (snd (S ! i)) = severity a"
    by blast
  from j len setS have "S ! j \<in> set al" by (metis nth_mem)
  from grouped_first_finding[OF g this] obtain b
    where b: "find (\<lambda>v. code v = fst (S ! j)) vs = Some b" "data_severity (snd (S ! j)) = severity b"
    by blast
  from sorted_entries_nth[OF g assms(2) j] a(2) b(2)
  have "severity a < severity b
    \<or> (severity a = severity b \<and> data_count (snd (S ! j)) < data_count (snd (S ! i)))
    \<or> (severity a = severity b \<and> data_count (snd (S ! i)) = data_count (snd (S ! j))
        \<and> enumerated_before vs (fst (S ! i)) (fst (S ! j)))"
    by (simp add: S_def)
  with a(1) b(1) at[OF i] at[OF j] show ?thesis
    by simp
qed

text \<open>The two warnings keep the order in which their rules were first encountered.\<close>

theorem breakdown_order_witness:
  "summarize ''/repo/openapi.yaml'' tied_findings = Inr tied_report
   \<and> (1::nat) < 2 \<and> 2 < length (ruleBreakdown tied_report)
   \<and> rule (ruleBreakdown tied_report ! 1) = ''operation-tags''
   \<and> rule (ruleBreakdown tied_report ! 2) = ''info-contact''
   \<and> enumerated_before tied_findings ''operation-tags'' ''info-contact''
   \<and> first_seen ''operation-tags'' tied_findings < first_seen ''info-contact'' tied_findings"
proof -
  have h: "summarize ''/repo/openapi.yaml'' tied_findings = Inr tied_report"
    by code_simp
  have l: "(1::nat) < 2" by simp
  have n: "2 < length (ruleBreakdown tied_report)"
    by (simp add: tied_report_def)
  have r1: "rule (ruleBreakdown tied_report ! 1) = ''operation-tags''"
    and r2: "rule (ruleBreakdown tied_report ! 2) = ''info-contact''"
    and c: "count (ruleBreakdown tied_report ! 1) = count (ruleBreakdown tied_report ! 2)"
    by (simp_all add: tied_report_def)
  have f1: "find (\<lambda>v. code v = ''operation-tags'') tied_findings = Some (sample ''operation-tags'' 1 3)"
    and f2: "find (\<lambda>v. code v = ''info-contact'') tied_findings = Some (sample ''info-contact'' 1 9)"
    by (simp_all add: tied_findings_def sample_def)
  have s: "severity (sample ''operation-tags'' 1 3) = severity (sample ''info-contact'' 1 9)"
    by (simp add: sample_def)
  from breakdown_order[OF h l n] r1 r2 c f1 f2 s
  have e: "enumerated_before tied_findings ''operation-tags'' ''info-contact''"
    by auto
  have "\<not> is_array_index ''operation-tags''"
    by (simp add: is_array_index_def is_digit_def)
  with e have "first_seen ''operation-tags'' tied_findings < first_seen ''info-contact'' tied_findings"
    by (simp add: enumerated_before_def)
  with h l n r1 r2 e show ?thesis by simp
qed

text \<open>
  Claim C5 as stated fails where rules are named by numbers: the two warnings below
  are tied on severity and count, rule \<^verbatim>\<open>404\<close> is encountered first, and the report
  lists rule \<^verbatim>\<open>200\<close> first.
\<close>

theorem encounter_order_counterexample:
  "summarize ''/repo/openapi.yaml'' numbered_findings = Inr numbered_report
   \<and> map rule (ruleBreakdown numbered_report) = [''200'', ''404'']
   \<and> map severity_label (ruleBreakdown numbered_report) = [''warning'', ''warning'']
   \<and> map count (ruleBreakdown numbered_report) = [1, 1]
   \<and> first_seen ''404'' numbered_findings = 0
   \<and> first_seen ''200'' numbered_findings = 1
   \<and> \<not> first_seen (rule (ruleBreakdown numbered_report ! 0)) numbered_findings
         < first_seen (rule (ruleBreakdown numbered_report ! 1)) numbered_findings"
proof -
  have h: "summarize ''/repo/openapi.yaml'' numbered_findings = Inr numbered_report"
    by code_simp
  have f: "first_seen ''404'' numbered_findings = 0" "first_seen ''200'' numbered_findings = 1"
    by (simp_all add: first_seen_def numbered_findings_def sample_def)
  with h show ?thesis
    by (simp add: numbered_report_def)
qed

subsection \<open>The file-name patterns\<close>





lemma startsWith_prefix: "startsWith s p \<longleftrightarrow> prefix p s"
proof
  assume "startsWith s p"
  then have "s = p @ drop (length p) s"
    by (metis append_take_drop_id startsWith_def)
  then show "prefix p s" by (metis prefixI)
next
  assume "prefix p s"
  then show "startsWith s p" by (auto simp: startsWith_def prefix_def)
qed

lemma traversal_returns_candidate:
  assumes "depth \<noteq> 0" and "(name, File) \<in> set entries"
    and "\<not> prefix ''.'' name" and "name \<noteq> ''node_modules''" and "isSpecFile name"
  shows "path_join dir name \<in> set (findSpecs dir (Directory entries) depth)"
proof -
  from assms(3-5) have "processEntry dir (name, File) depth = [path_join dir name]"
    by (simp add: processEntry.simps startsWith_prefix)
  moreover from assms(1) have "findSpecs dir (Directory entries) depth
      = concat (map (\<lambda>entry. processEntry dir entry depth) entries)"
    by (simp add: findSpecs.simps)
  ultimately show ?thesis
    using assms(2) by force
qed

subsection \<open>Discovery\<close>




subsection \<open>The run as a whole\<close>

lemma lint_all_Inr:
  "lint_all run specs = Inr rs \<Longrightarrow>
   length rs = length specs
   \<and> (\<forall>i < length specs. \<exists>vs. lintSpec (run (specs ! i)) = Inr vs
                               \<and> summarize (specs ! i) vs = Inr (rs ! i))"
proof (induction specs arbitrary: rs)
  case Nil
  then show ?case by simp
next
  case (Cons s rest)
  from Cons.prems obtain vs r rs' where
    l: "lintSpec (run s) = Inr vs" and su: "summarize s vs = Inr r"
    and rest: "lint_all run rest = Inr rs'" and rs: "rs = r # rs'"
    by (auto split: sum.splits)
  from Cons.IH[OF rest] have len: "length rs' = length rest"
    and ih: "\<And>i. i < length rest \<Longrightarrow> \<exists>vs. lintSpec (run (rest ! i)) = Inr vs
                               \<and> summarize (rest ! i) vs = Inr (rs' ! i)"
    by simp_all
  show ?case
  proof (intro conjI allI impI)
    show "length rs = length (s # rest)" using len rs by simp
  next
    fix i assume "i < length (s # rest)"
    then show "\<exists>vs. lintSpec (run ((s # rest) ! i)) = Inr vs
                 \<and> summarize ((s # rest) ! i) vs = Inr (rs ! i)"
      using l su ih rs by (cases i) auto
  qed
qed

lemma lint_all_fails:
  "s \<in> set specs \<Longrightarrow> lintSpec (run s) = Inl e \<Longrightarrow> \<exists>e'. lint_all run specs = Inl e'"
  by (induction specs) (auto split: sum.splits)

lemma main_report:
  assumes "rep \<in> set (stdout (main w))"
  shows "\<exists>rs. lint_all (spectral w) (locate w) = Inr rs \<and> locate w \<noteq> []
          \<and> rep = \<lparr> allPass = list_all pass rs, results = rs \<rparr>
          \<and> main w = \<lparr> stdout = [rep], stderr = [],
                        exit_code = (if list_all pass rs then 0 else 1) \<rparr>"
  using assms by (auto simp: main_def Let_def split: if_splits sum.splits)

lemma main_aborts:
  assumes "lint_all (spectral w) (locate w) = Inl e"
  shows "main w = \<lparr> stdout = [], stderr = [Uncaught e], exit_code = 1 \<rparr>"
proof -
  from assms have "locate w \<noteq> []" by auto
  with assms show ?thesis by (simp add: main_def Let_def)
qed

subsection \<open>Verdict and exit code\<close>

text \<open>
  Claim C1. In every run that prints a report, the report is the only document on
  standard output and has one file report per specification; the file report's
  \<^verbatim>\<open>pass\<close> is true exactly when the findings of that file have no finding of severity
  0; \<^verbatim>\<open>allPass\<close> is the conjunction of the \<^verbatim>\<open>pass\<close> fields; and the exit code is 0 when
  \<^verbatim>\<open>allPass\<close> is true and 1 otherwise.
\<close>

theorem verdict_and_exit_code:
  assumes "rep \<in> set (stdout (main w))" and "i < length (results rep)"
  shows "stdout (main w) = [rep]
    \<and> length (results rep) = length (locate w)
    \<and> (\<exists>vs. lintSpec (spectral w (locate w ! i)) = Inr vs
           \<and> summarize (locate w ! i) vs = Inr (results rep ! i)
           \<and> pass (results rep ! i) = (filter (\<lambda>v. severity v = 0) vs = []))
    \<and> allPass rep = list_all pass (results rep)
    \<and> exit_code (main w) = (if allPass rep then 0 else 1)"
proof -
  from main_report[OF assms(1)] obtain rs where
    la: "lint_all (spectral w) (locate w) = Inr rs"
    and rep: "rep = \<lparr> allPass = list_all pass rs, results = rs \<rparr>"
    and m: "main w = \<lparr> stdout = [rep], stderr = [],
                        exit_code = (if list_all pass rs then 0 else 1) \<rparr>"
    by blast
  from lint_all_Inr[OF la] have len: "length rs = length (locate w)"
    and each: "\<And>i. i < length (locate w) \<Longrightarrow>
         \<exists>vs. lintSpec (spectral w (locate w ! i)) = Inr vs
              \<and> summarize (locate w ! i) vs = Inr (rs ! i)"
    by simp_all
  from assms(2) rep len have "i < length (locate w)" by simp
  from each[OF this] obtain vs where
    l: "lintSpec (spectral w (locate w ! i)) = Inr vs"
    and s: "summarize (locate w ! i) vs = Inr (rs ! i)"
    by blast
  from s have "pass (rs ! i) = (filter (\<lambda>v. severity v = 0) vs = [])"
    by (rule summarize_Inr)
  with l s rep have "\<exists>vs. lintSpec (spectral w (locate w ! i)) = Inr vs
           \<and> summarize (locate w ! i) vs = Inr (results rep ! i)
           \<and> pass (results rep ! i) = (filter (\<lambda>v. severity v = 0) vs = [])"
    by auto
  with m rep len show ?thesis by simp
qed

text \<open>
  The first file has a warning only and passes, the second has errors: \<^verbatim>\<open>allPass\<close> is
  false and the exit code is 1.
\<close>

theorem verdict_and_exit_code_witness:
  "two_files_report \<in> set (stdout (main two_files_world))
   \<and> 0 < length (results two_files_report)
   \<and> stdout (main two_files_world) = [two_files_report]
   \<and> pass (results two_files_report ! 0)
   \<and> allPass two_files_report = False
   \<and> exit_code (main two_files_world) = 1"
proof -
  have h: "two_files_report \<in> set (stdout (main two_files_world))"
    by code_simp
  have n: "0 < length (results two_files_report)"
    by (simp add: two_files_report_def)
  from verdict_and_exit_code[OF h n]
  have o: "stdout (main two_files_world) = [two_files_report]"
    and e: "exit_code (main two_files_world) = (if allPass two_files_report then 0 else 1)"
    by blast+
  have p: "pass (results two_files_report ! 0)" and a: "allPass two_files_report = False"
    by (simp_all add: two_files_report_def)
  from e a have "exit_code (main two_files_world) = 1" by simp
  with h n o p a show ?thesis by blast
qed


subsection \<open>Failures of the linter\<close>

text \<open>
  Claim C2, as amended. For every specification of a run, \<^verbatim>\<open>lintSpec\<close> returns the
  parsed findings whenever the linter printed parseable JSON on its standard output,
  also when it exited with a nonzero status. When the linter exits with status 0 and
  prints nothing, \<^verbatim>\<open>lintSpec\<close> returns the empty list of findings. In every other case
  (the linter could not be started, it failed without output, or its output is not
  empty and not parseable JSON) \<^verbatim>\<open>lintSpec\<close> throws, and the run ends with exit code 1
  and nothing on standard output.
\<close>

theorem lint_outcomes:
  assumes "s \<in> set (locate w)" and "r = spectral w s"
  shows "(\<forall>vs. captured r = Some (Json vs) \<longrightarrow> lintSpec r = Inr vs)
    \<and> (r = Returned Empty \<longrightarrow> lintSpec r = Inr [])
    \<and> ((\<exists>e. lintSpec r = Inl e) \<longleftrightarrow> (\<forall>vs. captured r \<noteq> Some (Json vs)) \<and> r \<noteq> Returned Empty)
    \<and> ((\<exists>e. lintSpec r = Inl e) \<longrightarrow>
          stdout (main w) = [] \<and> exit_code (main w) = 1 \<and> (\<exists>e. stderr (main w) = [Uncaught e]))"
proof -
  have 1: "\<forall>vs. captured r = Some (Json vs) \<longrightarrow> lintSpec r = Inr vs"
  proof (cases r)
    case (Returned raw)
    then show ?thesis by (cases raw) (simp_all add: lintSpec_def)
  next
    case (Threw err)
    then show ?thesis by (cases err) (auto simp: lintSpec_def)
  qed
  have 2: "r = Returned Empty \<longrightarrow> lintSpec r = Inr []"
    by (simp add: lintSpec_def)
  have 3: "(\<exists>e. lintSpec r = Inl e) \<longleftrightarrow> (\<forall>vs. captured r \<noteq> Some (Json vs)) \<and> r \<noteq> Returned Empty"
  proof (cases r)
    case (Returned raw)
    then show ?thesis by (cases raw) (simp_all add: lintSpec_def)
  next
    case (Threw err)
    show ?thesis
    proof (cases err)
      case SpawnFailed
      with Threw show ?thesis by (simp add: lintSpec_def)
    next
      case (Exited status out)
      with Threw show ?thesis by (cases out) (simp_all add: lintSpec_def)
    qed
  qed
  have 4: "stdout (main w) = [] \<and> exit_code (main w) = 1 \<and> (\<exists>e. stderr (main w) = [Uncaught e])"
    if "lintSpec r = Inl e" for e
  proof -
    from lint_all_fails[OF assms(1), of "spectral w" e] that assms(2)
    obtain e' where "lint_all (spectral w) (locate w) = Inl e'" by auto
    from main_aborts[OF this] show ?thesis by simp
  qed
  from 1 2 3 4 show ?thesis by blast
qed

text \<open>The binary is missing: nothing is printed and the exit code is 1.\<close>

theorem lint_outcomes_witness:
  "''/repo/openapi.yaml'' \<in> set (locate no_linter_world)
   \<and> Threw SpawnFailed = spectral no_linter_world ''/repo/openapi.yaml''
   \<and> captured (Threw SpawnFailed) = None
   \<and> lintSpec (Threw SpawnFailed) = Inl ExecError
   \<and> stdout (main no_linter_world) = []
   \<and> exit_code (main no_linter_world) = 1"
proof -
  have h: "''/repo/openapi.yaml'' \<in> set (locate no_linter_world)"
    by code_simp
  have r: "Threw SpawnFailed = spectral no_linter_world ''/repo/openapi.yaml''"
    by (simp add: no_linter_world_def)
  have c: "captured (Threw SpawnFailed) = None" by simp
  have l: "lintSpec (Threw SpawnFailed) = Inl ExecError" by (simp add: lintSpec_def)
  from lint_outcomes[OF h r] l
  have "stdout (main no_linter_world) = []" and "exit_code (main no_linter_world) = 1"
    by blast+
  with h r c l show ?thesis by blast
qed

text \<open>
  Claim C2 as stated fails when the linter exits with status 0 and prints nothing: no
  parseable output was captured, yet \<^verbatim>\<open>lintSpec\<close> returns the empty list and the run
  reports a clean file.
\<close>

theorem silent_linter_counterexample:
  "captured (Returned Empty) = Some Empty
   \<and> JSON_parse Empty = Inl SyntaxError
   \<and> lintSpec (Returned Empty) = Inr []
   \<and> spectral silent_linter_world ''/repo/openapi.yaml'' = Returned Empty
   \<and> main silent_linter_world =
       \<lparr> stdout = [\<lparr> allPass = True,
                      results = [\<lparr> spec = ''/repo/openapi.yaml'', pass = True,
                                   counts = \<lparr> errors = 0, warnings = 0, total_count = 0 \<rparr>,
                                   ruleBreakdown = [] \<rparr>] \<rparr>],
         stderr = [], exit_code = 0 \<rparr>"
  by code_simp

subsection \<open>No specification found\<close>

text \<open>
  Claim C3, as amended. When no path is given and the traversal finds no specification,
  the process exits with code 0, prints nothing on standard output, and sends the
  diagnostic to the error channel only.
\<close>

theorem no_specs_outcome:
  assumes "argv w = []" and "findSpecs (REPO_ROOT w) (root_node w) 3 = []"
  shows "main w = \<lparr> stdout = [], stderr = [NoSpecsFound], exit_code = 0 \<rparr>"
  using assms by (simp add: main_def locate_def)

theorem no_specs_outcome_witness:
  "argv no_specs_world = []
   \<and> findSpecs (REPO_ROOT no_specs_world) (root_node no_specs_world) 3 = []
   \<and> main no_specs_world = \<lparr> stdout = [], stderr = [NoSpecsFound], exit_code = 0 \<rparr>"
proof -
  have a: "argv no_specs_world = []" by (simp add: no_specs_world_def)
  have f: "findSpecs (REPO_ROOT no_specs_world) (root_node no_specs_world) 3 = []"
    by code_simp
  from a f no_specs_outcome[OF a f] show ?thesis by blast
qed

text \<open>
  Claim C3 as stated fails: with nothing to lint the document
  \<^verbatim>\<open>{allPass: true, results: []}\<close> is not printed; standard output stays empty.
\<close>

theorem no_specs_counterexample:
  "locate no_specs_world = []
   \<and> stdout (main no_specs_world) = []
   \<and> stdout (main no_specs_world) \<noteq> [\<lparr> allPass = True, results = [] \<rparr>]
   \<and> exit_code (main no_specs_world) = 0"
  by code_simp

end
